theory Spec2Isabelle
  imports Main "HOL-Library.AList"
begin

section \<open>The collaboration relay: JavaScript values and helpers\<close>

text \<open>
  The relay server keeps one \<open>RoomState\<close> per project: the presence records of the
  connected users and the text of the shared document, a single string whose lines are
  separated by the line feed character. JavaScript strings are modelled as \<open>string\<close>,
  one list element per code unit; JavaScript numbers that index lines and columns are
  modelled as \<open>int\<close>, so that zero and negative coordinates are inputs of the model.
\<close>

datatype error = TypeError | SyntaxError

text \<open>\<open>s.split('\n')\<close>: never empty; the empty string gives one empty line.\<close>

fun split_nl :: "string \<Rightarrow> string list" where
  "split_nl [] = [[]]"
| "split_nl (c # cs) =
     (if c = CHR 0x0A then [] # split_nl cs
      else (case split_nl cs of [] \<Rightarrow> [[c]] | l # ls \<Rightarrow> (c # l) # ls))"

text \<open>\<open>lines.join('\n')\<close>.\<close>

fun join_nl :: "string list \<Rightarrow> string" where
  "join_nl [] = []"
| "join_nl [l] = l"
| "join_nl (l # ls) = l @ CHR 0x0A # join_nl ls"

text \<open>\<open>xs[i]\<close>: \<open>undefined\<close> (here \<open>None\<close>) outside the array.\<close>

definition index_at :: "'a list \<Rightarrow> int \<Rightarrow> 'a option" where
  "index_at xs i = (if 0 \<le> i \<and> i < int (length xs) then Some (xs ! nat i) else None)"

text \<open>
  \<open>s.substring(a, b)\<close> clamps both arguments to \<open>0..s.length\<close> and swaps them when
  the first is the larger; \<open>s.substring(a)\<close> runs to the end of the string.
\<close>

definition substring :: "string \<Rightarrow> int \<Rightarrow> int \<Rightarrow> string" where
  "substring s a b =
     (let n = int (length s);
          a' = max 0 (min a n);
          b' = max 0 (min b n);
          lo = min a' b';
          hi = max a' b'
      in take (nat (hi - lo)) (drop (nat lo) s))"

definition substring_from :: "string \<Rightarrow> int \<Rightarrow> string" where
  "substring_from s a = drop (nat (max 0 (min a (int (length s))))) s"

text \<open>
  The array left by \<open>xs.splice(start, deleteCount, ...items)\<close>: a negative start counts
  from the end, and the delete count is clamped to what is there.
\<close>

definition splice :: "'a list \<Rightarrow> int \<Rightarrow> int \<Rightarrow> 'a list \<Rightarrow> 'a list" where
  "splice xs start deleteCount items =
     (let n = int (length xs);
          s = (if start < 0 then max (n + start) 0 else min start n);
          d = max 0 (min deleteCount (n - s))
      in take (nat s) xs @ items @ drop (nat (s + d)) xs)"

section \<open>applyChange\<close>

text \<open>The range of a change event, as the editor sends it (1-based lines and columns).\<close>

record Range =
  startLineNumber :: int
  startColumn :: int
  endLineNumber :: int
  endColumn :: int

text \<open>
  \<open>applyChange(content, change)\<close> with \<open>change\<close> destructured into its \<open>range\<close> and
  \<open>text\<close>. Its only caller passes a \<open>text\<close> that is a string. A missing \<open>range\<close>
  (\<open>None\<close>) and a line that the buffer does not have make a property access on
  \<open>undefined\<close>, which throws a TypeError.
\<close>

definition applyChange :: "string \<Rightarrow> Range option \<Rightarrow> string \<Rightarrow> error + string" where
  "applyChange content rng txt =
     (let lines = split_nl content in
      case rng of
        None \<Rightarrow> Inl TypeError
      | Some r \<Rightarrow>
          if startLineNumber r = endLineNumber r then
            (case index_at lines (startLineNumber r - 1) of
               None \<Rightarrow> Inl TypeError
             | Some line \<Rightarrow>
                 Inr (join_nl (lines[nat (startLineNumber r - 1) :=
                        substring line 0 (startColumn r - 1) @ txt @
                        substring_from line (endColumn r - 1)])))
          else
            (case index_at lines (startLineNumber r - 1) of
               None \<Rightarrow> Inl TypeError
             | Some startLine \<Rightarrow>
                 (case index_at lines (endLineNumber r - 1) of
                    None \<Rightarrow> Inl TypeError
                  | Some endLine \<Rightarrow>
                      let newLines = split_nl txt;
                          newLines0 = newLines[0 :=
                            substring startLine 0 (startColumn r - 1) @ newLines ! 0];
                          newLines1 = newLines0[length newLines0 - 1 :=
                            newLines0 ! (length newLines0 - 1) @
                            substring_from endLine (endColumn r - 1)]
                      in Inr (join_nl (splice lines (startLineNumber r - 1)
                            (endLineNumber r - startLineNumber r + 1) newLines1)))))"

text \<open>
  A buffer as a sequence of lines: at least one line, and no line holds a line feed.
  Its content string is \<open>join_nl\<close> of the lines.
\<close>

definition is_buffer :: "string list \<Rightarrow> bool" where
  "is_buffer ls = (ls \<noteq> [] \<and> list_all (\<lambda>l. CHR 0x0A \<notin> set l) ls)"

text \<open>
  A range within the bounds of a buffer: both lines exist, the start is not after the
  end, and each column is between 1 and one past the end of its line.
\<close>

definition in_bounds :: "string list \<Rightarrow> Range \<Rightarrow> bool" where
  "in_bounds ls r =
     (1 \<le> startLineNumber r \<and> startLineNumber r \<le> endLineNumber r \<and>
      endLineNumber r \<le> int (length ls) \<and>
      1 \<le> startColumn r \<and>
      startColumn r \<le> int (length (ls ! nat (startLineNumber r - 1))) + 1 \<and>
      1 \<le> endColumn r \<and>
      endColumn r \<le> int (length (ls ! nat (endLineNumber r - 1))) + 1 \<and>
      (startLineNumber r < endLineNumber r \<or> startColumn r \<le> endColumn r))"

text \<open>
  The range replacement in the words of the specification: the lines before the start
  line and after the end line stay, and between them stand the lines of the prefix of
  the start line, the replacement text and the suffix of the end line.
\<close>

definition range_replace :: "string list \<Rightarrow> Range \<Rightarrow> string \<Rightarrow> string list" where
  "range_replace ls r t =
     take (nat (startLineNumber r - 1)) ls @
     split_nl (take (nat (startColumn r - 1)) (ls ! nat (startLineNumber r - 1)) @ t @
               drop (nat (endColumn r - 1)) (ls ! nat (endLineNumber r - 1))) @
     drop (nat (endLineNumber r)) ls"

text \<open>
  The range that spans a text \<open>t\<close> once it has been inserted at line \<open>l\<close>, column
  \<open>c\<close>: it ends on the line of the last line of \<open>t\<close>, just behind it.
\<close>

definition inserted_range :: "int \<Rightarrow> int \<Rightarrow> string \<Rightarrow> Range" where
  "inserted_range l c t =
     (let ts = split_nl t in
      \<lparr>startLineNumber = l, startColumn = c,
       endLineNumber = l + int (length ts) - 1,
       endColumn = (if length ts = 1 then c else 1) + int (length (last ts))\<rparr>)"

section \<open>The relay server\<close>

text \<open>
  A value of JavaScript's \<open>any\<close>, as far as the server can tell values apart: the
  server stores and forwards cursor positions, selections and parsed profiles without
  looking into them, and asks of a change's text only whether it is a string.
\<close>

datatype jsval =
    JUndefined
  | JNull
  | JBool bool
  | JNum int
  | JStr string
  | JArr "jsval list"
  | JObj "(string \<times> jsval) list"

record UserPresence =
  userId :: string
  profile :: jsval
  cursor :: jsval
  selection :: jsval
  lastActive :: nat

text \<open>
  \<open>users\<close> is a JavaScript \<open>Map\<close>: an association list in insertion order, where
  setting a key that is present keeps its place (\<open>AList.update\<close>), and
  \<open>Array.from(users.values())\<close> is \<open>map snd\<close>.
\<close>

record RoomState =
  users :: "(string \<times> UserPresence) list"
  content :: string

text \<open>The payload of a change event: an object with a \<open>range\<close> and a \<open>text\<close>.\<close>

record Change =
  change_range :: "Range option"
  change_text :: jsval

text \<open>The payload of a cursor event.\<close>

record CursorUpdate =
  cu_position :: jsval
  cu_selection :: jsval

text \<open>
  The handshake query; a parameter that was not sent is \<open>None\<close>. (A parameter sent
  more than once, which arrives as an array, is not modelled.)
\<close>

record Query =
  q_projectId :: "string option"
  q_userId :: "string option"
  q_profile :: "string option"

text \<open>
  What the handlers of one socket close over: the project id, the user id and the
  \<open>room\<close> object, by reference.
\<close>

text \<open>A socket is known by its id, a string that socket.io gives it.\<close>

type_synonym socket_id = string

record Closure =
  c_projectId :: string
  c_userId :: string
  c_room :: nat

text \<open>
  The state of the server process. \<open>objects\<close> holds every \<open>RoomState\<close> object constructed
  so far, a reference being its index; \<open>rooms\<close> is the \<open>rooms\<close> Map from project id to
  room object; \<open>adapter\<close> is the socket.io membership, the pairs of a socket and a room it
  has joined; \<open>handlers\<close> gives each socket whose event handlers are registered the
  closure of these handlers.
\<close>

record Server =
  objects :: "RoomState list"
  rooms :: "string \<rightharpoonup> nat"
  adapter :: "(socket_id \<times> string) list"
  handlers :: "socket_id \<rightharpoonup> Closure"

datatype Message = Presence "UserPresence list" | ChangeMsg "Change option"

text \<open>One \<open>emit\<close>: the room it went to, the sockets that receive it, the message.\<close>

record Emission =
  to_room :: string
  recipients :: "socket_id list"
  message :: Message

text \<open>
  What running a handler gives: the state it leaves, the messages it emitted, the
  exception that escaped it (if one did, the state is the one at the throw), and whether
  the handler closed the socket.
\<close>

record Outcome =
  state :: Server
  emitted :: "Emission list"
  raised :: "error option"
  disconnected :: bool

definition init :: Server where
  "init = \<lparr>objects = [], rooms = Map.empty, adapter = [], handlers = Map.empty\<rparr>"

definition quiet :: "Server \<Rightarrow> Outcome" where
  "quiet s = \<lparr>state = s, emitted = [], raised = None, disconnected = False\<rparr>"

text \<open>
  The sockets in a socket.io room: the sockets that joined it and, in the room named by
  the id of a connected socket, that socket, which socket.io puts there when it
  connects. The connected sockets are those the adapter knows. A socket is listed once.
\<close>

definition members :: "Server \<Rightarrow> string \<Rightarrow> socket_id list" where
  "members s p = remdups (map fst (filter (\<lambda>m. snd m = p \<or> fst m = p) (adapter s)))"

text \<open>\<open>io.to(room).emit(...)\<close> reaches every socket in the room.\<close>

definition io_to_emit :: "Server \<Rightarrow> string \<Rightarrow> Message \<Rightarrow> Emission" where
  "io_to_emit s p m = \<lparr>to_room = p, recipients = members s p, message = m\<rparr>"

text \<open>\<open>socket.to(room).emit(...)\<close> reaches every socket in the room but the sender.\<close>

definition socket_to_emit :: "Server \<Rightarrow> socket_id \<Rightarrow> string \<Rightarrow> Message \<Rightarrow> Emission" where
  "socket_to_emit s sid p m =
     \<lparr>to_room = p, recipients = removeAll sid (members s p), message = m\<rparr>"

text \<open>
  The connection handler, for the socket \<open>sid\<close> at time \<open>now\<close>. A query parameter is
  falsy when it is missing or the empty string. \<open>JSON_parse\<close> gives \<open>None\<close> where
  \<open>JSON.parse\<close> throws a SyntaxError; it is evaluated after the room has been looked
  up or created and the socket has joined it, and before the user is stored. The room
  is read back from \<open>rooms\<close>, where it is by then (\<open>rooms.get(projectId)!\<close>).
\<close>

definition connection ::
  "(string \<Rightarrow> jsval option) \<Rightarrow> nat \<Rightarrow> socket_id \<Rightarrow> Query \<Rightarrow> Server \<Rightarrow> Outcome" where
  "connection JSON_parse now sid q s =
     (case (q_projectId q, q_userId q, q_profile q) of
        (Some projectId, Some uid, Some prof) \<Rightarrow>
          if projectId = [] \<or> uid = [] \<or> prof = [] then
            \<lparr>state = s, emitted = [], raised = None, disconnected = True\<rparr>
          else
            let s1 = (if rooms s projectId = None
                      then s\<lparr>objects := objects s @ [\<lparr>users = [], content = []\<rparr>],
                             rooms := (rooms s)(projectId \<mapsto> length (objects s))\<rparr>
                      else s);
                room = the (rooms s1 projectId);
                s2 = s1\<lparr>adapter := List.insert (sid, projectId) (adapter s1)\<rparr>
            in case JSON_parse prof of
                 None \<Rightarrow>
                   \<lparr>state = s2, emitted = [], raised = Some SyntaxError,
                    disconnected = False\<rparr>
               | Some p \<Rightarrow>
                   let user = \<lparr>userId = uid, profile = p,
                               cursor = JObj [(''row'', JNum 0), (''column'', JNum 0)],
                               selection = JUndefined, lastActive = now\<rparr>;
                       r = objects s2 ! room;
                       r' = r\<lparr>users := AList.update uid user (users r)\<rparr>;
                       s3 = s2\<lparr>objects := (objects s2)[room := r']\<rparr>;
                       s4 = s3\<lparr>handlers := (handlers s3)(sid \<mapsto>
                              \<lparr>c_projectId = projectId, c_userId = uid, c_room = room\<rparr>)\<rparr>
                   in \<lparr>state = s4,
                       emitted = [io_to_emit s3 projectId (Presence (map snd (users r')))],
                       raised = None, disconnected = False\<rparr>
      | _ \<Rightarrow> \<lparr>state = s, emitted = [], raised = None, disconnected = True\<rparr>)"

text \<open>
  The cursor handler of socket \<open>sid\<close>. A socket without handlers is not heard. A payload
  that is \<open>undefined\<close> (\<open>None\<close>) cannot be destructured.
\<close>

definition on_cursor :: "nat \<Rightarrow> socket_id \<Rightarrow> CursorUpdate option \<Rightarrow> Server \<Rightarrow> Outcome" where
  "on_cursor now sid payload s =
     (case handlers s sid of
        None \<Rightarrow> quiet s
      | Some cl \<Rightarrow>
          (case payload of
             None \<Rightarrow> (quiet s)\<lparr>raised := Some TypeError\<rparr>
           | Some upd \<Rightarrow>
               let r = objects s ! c_room cl in
               (case map_of (users r) (c_userId cl) of
                  None \<Rightarrow> quiet s
                | Some user \<Rightarrow>
                    let user' = user\<lparr>cursor := cu_position upd,
                                     selection := cu_selection upd,
                                     lastActive := now\<rparr>;
                        r' = r\<lparr>users := AList.update (c_userId cl) user' (users r)\<rparr>;
                        s' = s\<lparr>objects := (objects s)[c_room cl := r']\<rparr>
                    in \<lparr>state = s',
                        emitted = [io_to_emit s' (c_projectId cl) (Presence (map snd (users r')))],
                        raised = None, disconnected = False\<rparr>)))"

text \<open>
  The change handler of socket \<open>sid\<close>: first the relay to the other sockets of the
  room, then, when the text is a string, the update of the room's content.
\<close>

definition on_change :: "socket_id \<Rightarrow> Change option \<Rightarrow> Server \<Rightarrow> Outcome" where
  "on_change sid payload s =
     (case handlers s sid of
        None \<Rightarrow> quiet s
      | Some cl \<Rightarrow>
          let relay = socket_to_emit s sid (c_projectId cl) (ChangeMsg payload) in
          (case payload of
             None \<Rightarrow>
               \<lparr>state = s, emitted = [relay], raised = Some TypeError, disconnected = False\<rparr>
           | Some change \<Rightarrow>
               (case change_text change of
                  JStr txt \<Rightarrow>
                    let r = objects s ! c_room cl in
                    (case applyChange (content r) (change_range change) txt of
                       Inl e \<Rightarrow>
                         \<lparr>state = s, emitted = [relay], raised = Some e, disconnected = False\<rparr>
                     | Inr c \<Rightarrow>
                         \<lparr>state = s\<lparr>objects := (objects s)[c_room cl := r\<lparr>content := c\<rparr>]\<rparr>,
                          emitted = [relay], raised = None, disconnected = False\<rparr>)
                | _ \<Rightarrow>
                    \<lparr>state = s, emitted = [relay], raised = None, disconnected = False\<rparr>)))"

text \<open>
  The disconnect handler of socket \<open>sid\<close>. socket.io fires the event after the socket
  has left its rooms; afterwards the socket is gone and its handlers with it.
\<close>

definition on_disconnect :: "socket_id \<Rightarrow> Server \<Rightarrow> Outcome" where
  "on_disconnect sid s =
     (let s0 = s\<lparr>adapter := filter (\<lambda>m. fst m \<noteq> sid) (adapter s)\<rparr> in
      case handlers s sid of
        None \<Rightarrow> quiet s0
      | Some cl \<Rightarrow>
          let r = objects s0 ! c_room cl;
              r' = r\<lparr>users := AList.delete (c_userId cl) (users r)\<rparr>;
              s1 = s0\<lparr>objects := (objects s0)[c_room cl := r']\<rparr>;
              presence = io_to_emit s1 (c_projectId cl) (Presence (map snd (users r')));
              s2 = (if length (users r') = 0
                    then s1\<lparr>rooms := (rooms s1)(c_projectId cl := None)\<rparr>
                    else s1);
              s3 = s2\<lparr>handlers := (handlers s2)(sid := None)\<rparr>
          in \<lparr>state = s3, emitted = [presence], raised = None, disconnected = False\<rparr>)"

text \<open>What arrives at the server, and the handler it runs.\<close>

datatype Event =
    Connect socket_id Query
  | Cursor socket_id "CursorUpdate option"
  | ChangeEv socket_id "Change option"
  | Disconnect socket_id

fun step :: "(string \<Rightarrow> jsval option) \<Rightarrow> nat \<Rightarrow> Event \<Rightarrow> Server \<Rightarrow> Outcome" where
  "step JSON_parse now (Connect sid q) s = connection JSON_parse now sid q s"
| "step JSON_parse now (Cursor sid payload) s = on_cursor now sid payload s"
| "step JSON_parse now (ChangeEv sid payload) s = on_change sid payload s"
| "step JSON_parse now (Disconnect sid) s = on_disconnect sid s"

text \<open>
  A run: the events in the order of their arrival, each with the time of its arrival.
  The messages add up; an exception that escapes a handler ends the run.
\<close>

fun run :: "(string \<Rightarrow> jsval option) \<Rightarrow> (nat \<times> Event) list \<Rightarrow> Server \<Rightarrow> Outcome" where
  "run JSON_parse [] s = quiet s"
| "run JSON_parse ((now, ev) # evs) s =
     (let out = step JSON_parse now ev s in
      if raised out \<noteq> None then out
      else let rest = run JSON_parse evs (state out)
           in rest\<lparr>emitted := emitted out @ emitted rest\<rparr>)"

section \<open>Notions of the claims\<close>

text \<open>
  The buffer does not have the start line or the end line of a range.
\<close>

definition lines_missing :: "string list \<Rightarrow> Range \<Rightarrow> bool" where
  "lines_missing ls r =
     (startLineNumber r < 1 \<or> int (length ls) < startLineNumber r \<or>
      endLineNumber r < 1 \<or> int (length ls) < endLineNumber r)"

text \<open>
  A range with each column moved into its line: to column 1 when it is below, to one
  past the end of the line when it is beyond.
\<close>

definition clamp_columns :: "string list \<Rightarrow> Range \<Rightarrow> Range" where
  "clamp_columns ls r =
     r\<lparr>startColumn :=
         max 1 (min (startColumn r) (int (length (ls ! nat (startLineNumber r - 1))) + 1)),
       endColumn :=
         max 1 (min (endColumn r) (int (length (ls ! nat (endLineNumber r - 1))) + 1))\<rparr>"

text \<open>The start of a range is not after its end.\<close>

definition start_before_end :: "Range \<Rightarrow> bool" where
  "start_before_end r =
     (startLineNumber r < endLineNumber r \<or>
      (startLineNumber r = endLineNumber r \<and> startColumn r \<le> endColumn r))"

text \<open>A handshake query that the connection handler accepts: no parameter is falsy.\<close>

definition accepted :: "Query \<Rightarrow> bool" where
  "accepted q =
     (case (q_projectId q, q_userId q, q_profile q) of
        (Some projectId, Some uid, Some prof) \<Rightarrow> projectId \<noteq> [] \<and> uid \<noteq> [] \<and> prof \<noteq> []
      | _ \<Rightarrow> False)"

text \<open>The sockets attached to a room: their handlers are registered for it.\<close>

definition participants :: "Server \<Rightarrow> string \<Rightarrow> socket_id set" where
  "participants s p = {sid. \<exists>cl. handlers s sid = Some cl \<and> c_projectId cl = p}"

text \<open>The socket an event comes from.\<close>

fun origin :: "Event \<Rightarrow> socket_id" where
  "origin (Connect sid q) = sid"
| "origin (Cursor sid payload) = sid"
| "origin (ChangeEv sid payload) = sid"
| "origin (Disconnect sid) = sid"

text \<open>
  socket.io gives every connection a socket id of its own: a connecting socket has
  neither handlers nor a room yet.
\<close>

definition fresh_socket :: "Server \<Rightarrow> Event \<Rightarrow> bool" where
  "fresh_socket s ev =
     (case ev of
        Connect sid q \<Rightarrow> handlers s sid = None \<and> sid \<notin> fst ` set (adapter s)
      | _ \<Rightarrow> True)"

text \<open>
  The membership of the socket.io rooms and the registered handlers agree: a socket is
  in a room exactly when its handlers are registered for that room.
\<close>

definition attached :: "Server \<Rightarrow> bool" where
  "attached s =
     (\<forall>sid p. (sid, p) \<in> set (adapter s) \<longleftrightarrow>
        (\<exists>cl. handlers s sid = Some cl \<and> c_projectId cl = p))"

text \<open>
  A server with the single room \<open>p\<close>, of content \<open>c\<close>, whose only participant is the
  user \<open>u\<close> on socket \<open>s1\<close>: the state after that user has connected and typed \<open>c\<close>.
\<close>

definition one_room :: "string \<Rightarrow> Server" where
  "one_room c =
     \<lparr>objects = [\<lparr>users = [(''u'', \<lparr>userId = ''u'', profile = JObj [],
                    cursor = JObj [(''row'', JNum 0), (''column'', JNum 0)],
                    selection = JUndefined, lastActive = 0\<rparr>)],
                  content = c\<rparr>],
      rooms = [''p'' \<mapsto> 0],
      adapter = [(''s1'', ''p'')],
      handlers = [''s1'' \<mapsto> \<lparr>c_projectId = ''p'', c_userId = ''u'', c_room = 0\<rparr>]\<rparr>"

text \<open>
  The events at which a \<open>RoomState\<close> is constructed: an accepted connection whose
  project id has no room in \<open>rooms\<close>.
\<close>

definition constructs :: "Server \<Rightarrow> Event \<Rightarrow> bool" where
  "constructs s ev =
     (case ev of
        Connect sid q \<Rightarrow>
          (case q_projectId q of
             Some pid \<Rightarrow> accepted q \<and> rooms s pid = None
           | None \<Rightarrow> False)
      | _ \<Rightarrow> False)"

text \<open>The presence record that the connection handler stores for a user.\<close>

definition joined_user :: "string \<Rightarrow> jsval \<Rightarrow> nat \<Rightarrow> UserPresence" where
  "joined_user uid p now =
     \<lparr>userId = uid, profile = p,
      cursor = JObj [(''row'', JNum 0), (''column'', JNum 0)],
      selection = JUndefined, lastActive = now\<rparr>"

text \<open>The users who have a socket attached to a room.\<close>

definition connected_users :: "Server \<Rightarrow> string \<Rightarrow> string set" where
  "connected_users s p =
     {uid. \<exists>sid cl. handlers s sid = Some cl \<and> c_projectId cl = p \<and> c_userId cl = uid}"

text \<open>
  The state is consistent: the handlers of every socket close over the room object that
  \<open>rooms\<close> has for their project id; every registered room is an object that exists,
  with one presence record, under its own user id, for each user attached to the room
  and for nobody else; two project ids do not share a room object; and a user has at
  most one socket attached to a room.
\<close>

definition consistent :: "Server \<Rightarrow> bool" where
  "consistent s =
     ((\<forall>sid cl. handlers s sid = Some cl \<longrightarrow> rooms s (c_projectId cl) = Some (c_room cl)) \<and>
      (\<forall>p ref. rooms s p = Some ref \<longrightarrow>
         ref < length (objects s) \<and>
         distinct (map fst (users (objects s ! ref))) \<and>
         set (map fst (users (objects s ! ref))) = connected_users s p \<and>
         (\<forall>kv \<in> set (users (objects s ! ref)). userId (snd kv) = fst kv)) \<and>
      (\<forall>p p' ref. rooms s p = Some ref \<and> rooms s p' = Some ref \<longrightarrow> p = p') \<and>
      (\<forall>sid sid' cl cl'. handlers s sid = Some cl \<and> handlers s sid' = Some cl' \<and>
         c_projectId cl = c_projectId cl' \<and> c_userId cl = c_userId cl' \<longrightarrow> sid = sid'))"

text \<open>
  The user who connects has no socket attached to the room yet: one active connection
  for each participant.
\<close>

definition single_connection :: "Server \<Rightarrow> Event \<Rightarrow> bool" where
  "single_connection s ev =
     (case ev of
        Connect sid q \<Rightarrow>
          (case (q_projectId q, q_userId q) of
             (Some pid, Some uid) \<Rightarrow> uid \<notin> connected_users s pid
           | _ \<Rightarrow> True)
      | _ \<Rightarrow> True)"

text \<open>
  A presence message is complete in a state: it lists the presence records of the room
  registered for the project id it goes to (none when no room is registered), and these
  are one record for each user attached to that room.
\<close>

definition presence_complete :: "Server \<Rightarrow> Emission \<Rightarrow> bool" where
  "presence_complete s em =
     (case message em of
        Presence ps \<Rightarrow>
          ps = (case rooms s (to_room em) of
                  Some ref \<Rightarrow> map snd (users (objects s ! ref))
                | None \<Rightarrow> []) \<and>
          distinct (map userId ps) \<and>
          set (map userId ps) = connected_users s (to_room em)
      | ChangeMsg payload \<Rightarrow> True)"

text \<open>
  The sockets that a message to the room \<open>p\<close> reaches: the participants of \<open>p\<close> and, when
  \<open>p\<close> is also the id of an attached socket, that socket.
\<close>

definition listeners :: "Server \<Rightarrow> string \<Rightarrow> socket_id set" where
  "listeners s p = participants s p \<union> {sid. sid = p \<and> handlers s sid \<noteq> None}"

text \<open>
  What a handler is seen to send: exactly one message, a presence snapshot to the room
  \<open>p\<close>; exactly one message, the change \<open>payload\<close> to the room \<open>p\<close>.
\<close>

definition announced :: "Outcome \<Rightarrow> string \<Rightarrow> bool" where
  "announced out p =
     (\<exists>rs ps. emitted out = [\<lparr>to_room = p, recipients = rs, message = Presence ps\<rparr>])"

definition relayed :: "Outcome \<Rightarrow> string \<Rightarrow> Change option \<Rightarrow> bool" where
  "relayed out p payload =
     (\<exists>rs. emitted out = [\<lparr>to_room = p, recipients = rs, message = ChangeMsg payload\<rparr>])"

text \<open>
  The state is sound, as every state that the handlers reach from the initial one is: the
  handlers of every socket close over a room object that exists; every presence record
  of a room object belongs to the user of a socket whose handlers close over that
  object; the handlers that close over one object are registered for one project id;
  and \<open>rooms\<close> maps to objects that exist, no two project ids to one object, and a project
  id only to an object whose sockets are registered for that id.
\<close>

definition sound :: "Server \<Rightarrow> bool" where
  "sound s =
     ((\<forall>sid cl. handlers s sid = Some cl \<longrightarrow> c_room cl < length (objects s)) \<and>
      (\<forall>ref k. ref < length (objects s) \<and> k \<in> fst ` set (users (objects s ! ref)) \<longrightarrow>
         (\<exists>sid cl. handlers s sid = Some cl \<and> c_room cl = ref \<and> c_userId cl = k)) \<and>
      (\<forall>sid cl sid' cl'. handlers s sid = Some cl \<and> handlers s sid' = Some cl' \<and>
         c_room cl = c_room cl' \<longrightarrow> c_projectId cl = c_projectId cl') \<and>
      (\<forall>p ref. rooms s p = Some ref \<longrightarrow> ref < length (objects s)) \<and>
      (\<forall>p p' ref. rooms s p = Some ref \<and> rooms s p' = Some ref \<longrightarrow> p = p') \<and>
      (\<forall>p sid cl. rooms s p = Some (c_room cl) \<and> handlers s sid = Some cl \<longrightarrow>
         c_projectId cl = p))"

text \<open>
  The room objects that serve a project id: the one that \<open>rooms\<close> has for it, and those
  that the handlers of the sockets attached to it close over.
\<close>

definition serving :: "Server \<Rightarrow> string \<Rightarrow> nat set" where
  "serving s p =
     {ref. rooms s p = Some ref} \<union>
     {ref. \<exists>sid cl. handlers s sid = Some cl \<and> c_projectId cl = p \<and> c_room cl = ref}"

text \<open>A join to the project \<open>p\<close>: an accepted handshake with that project id.\<close>

definition joins :: "string \<Rightarrow> Event \<Rightarrow> bool" where
  "joins p ev =
     (case ev of
        Connect sid q \<Rightarrow> accepted q \<and> q_projectId q = Some p
      | _ \<Rightarrow> False)"

text \<open>
  The room object \<open>ref\<close>, which served the project \<open>p\<close>, is discarded: \<open>rooms\<close> has no room
  for \<open>p\<close>, \<open>p\<close> has no participant, and neither the handlers of a socket nor an entry of
  \<open>rooms\<close> refer to the object.
\<close>

definition discarded :: "Server \<Rightarrow> string \<Rightarrow> nat \<Rightarrow> bool" where
  "discarded s p ref =
     (rooms s p = None \<and> participants s p = {} \<and> ref < length (objects s) \<and>
      (\<forall>sid cl. handlers s sid = Some cl \<longrightarrow> c_room cl \<noteq> ref) \<and>
      (\<forall>p'. rooms s p' \<noteq> Some ref))"

section \<open>The operation queue of the shared file system\<close>

text \<open>
  A file node, without its optional \<open>parentId\<close> and \<open>metadata\<close>, which the queue and
  \<open>applyOperation\<close> do not read.
\<close>

record FileNode =
  node_id :: string
  node_name :: string
  node_path :: string
  node_type :: string
  node_content :: "string option"
  node_projectId :: string
  createdBy :: string
  updatedBy :: string
  createdAt :: string
  updatedAt :: string

datatype OperationType = Create | Update | Delete | Move | Rename

record FileOperation =
  op_type :: OperationType
  op_file :: FileNode
  previousPath :: "string option"
  op_userId :: string
  op_timestamp :: nat

text \<open>
  A watcher callback: its identity, and whether it returns (\<open>True\<close>) or throws when it
  is called with a file.
\<close>

type_synonym Callback = "nat \<times> (FileNode \<Rightarrow> bool)"

text \<open>
  The \<open>await\<close> at which the drain loop is suspended: one of the four database calls
  inside \<open>applyOperation\<close>, or, \<open>applyOperation\<close> having returned, the \<open>await\<close> of its
  promise in \<open>processOperation\<close>.
\<close>

datatype Await = Upsert | DeleteRow | DeletePrevious | InsertRow | Return

text \<open>What is observed of the queue: an operation is started, and it finishes or fails.\<close>

datatype Trace = Started FileOperation | Finished FileOperation | Failed FileOperation

text \<open>
  The state of the one \<open>SharedFileSystem\<close> instance: the cache, the queue, the flag, the
  watchers of each path (none for a path without an entry), the operation and the
  \<open>await\<close> at which the drain loop is suspended, and the trace so far.
\<close>

record SharedFileSystem =
  fileCache :: "string \<rightharpoonup> FileNode"
  operationQueue :: "FileOperation list"
  isProcessing :: bool
  fileWatchers :: "string \<Rightarrow> Callback list"
  awaiting :: "(FileOperation \<times> Await) option"
  trace :: "Trace list"

definition fs_init :: SharedFileSystem where
  "fs_init = \<lparr>fileCache = Map.empty, operationQueue = [], isProcessing = False,
              fileWatchers = (\<lambda>p. []), awaiting = None, trace = []\<rparr>"

text \<open>
  \<open>watchFile\<close> adds the callback to the set of the path, and the function it returns
  deletes it again.
\<close>

definition watchFile :: "string \<Rightarrow> Callback \<Rightarrow> SharedFileSystem \<Rightarrow> SharedFileSystem" where
  "watchFile p callback s =
     s\<lparr>fileWatchers := (fileWatchers s)
         (p := if fst callback \<in> fst ` set (fileWatchers s p) then fileWatchers s p
               else fileWatchers s p @ [callback])\<rparr>"

definition unwatch :: "string \<Rightarrow> Callback \<Rightarrow> SharedFileSystem \<Rightarrow> SharedFileSystem" where
  "unwatch p callback s =
     s\<lparr>fileWatchers := (fileWatchers s)
         (p := filter (\<lambda>w. fst w \<noteq> fst callback) (fileWatchers s p))\<rparr>"

text \<open>
  \<open>notifyWatchers\<close> calls the callbacks of the path of the file in turn: it returns when
  all of them return, and throws when one throws.
\<close>

definition notifyWatchers :: "FileNode \<Rightarrow> SharedFileSystem \<Rightarrow> bool" where
  "notifyWatchers file s = list_all (\<lambda>w. snd w file) (fileWatchers s (node_path file))"

text \<open>
  The end of \<open>applyOperation\<close>, behind its \<open>switch\<close>: the watchers are notified. When they
  return, the operation has finished, and the loop awaits the promise; when one throws,
  the operation has failed, and the exception ends the loop before the flag is cleared.
\<close>

definition complete :: "FileOperation \<Rightarrow> SharedFileSystem \<Rightarrow> SharedFileSystem" where
  "complete operation s =
     (if notifyWatchers (op_file operation) s
      then s\<lparr>awaiting := Some (operation, Return), trace := trace s @ [Finished operation]\<rparr>
      else s\<lparr>awaiting := None, trace := trace s @ [Failed operation]\<rparr>)"

text \<open>A previous path that is given and not the empty string.\<close>

definition has_previousPath :: "FileOperation \<Rightarrow> bool" where
  "has_previousPath operation =
     (case previousPath operation of None \<Rightarrow> False | Some pp \<Rightarrow> pp \<noteq> [])"

text \<open>
  \<open>applyOperation\<close> from its entry to its first \<open>await\<close>. A rename has no case in the
  \<open>switch\<close> and goes to the end at once.
\<close>

definition applyOperation :: "FileOperation \<Rightarrow> SharedFileSystem \<Rightarrow> SharedFileSystem" where
  "applyOperation operation s =
     (case op_type operation of
        Create \<Rightarrow> s\<lparr>awaiting := Some (operation, Upsert)\<rparr>
      | Update \<Rightarrow> s\<lparr>awaiting := Some (operation, Upsert)\<rparr>
      | Delete \<Rightarrow> s\<lparr>awaiting := Some (operation, DeleteRow)\<rparr>
      | Move \<Rightarrow>
          if has_previousPath operation
          then s\<lparr>awaiting := Some (operation, DeletePrevious)\<rparr>
          else s\<lparr>awaiting := Some (operation, InsertRow)\<rparr>
      | Rename \<Rightarrow> complete operation s)"

text \<open>
  The head of the \<open>while\<close> loop of \<open>processOperation\<close>: the next operation is shifted off
  the queue and \<open>applyOperation\<close> is called, or the queue is empty and the flag is
  cleared.
\<close>

definition drain :: "SharedFileSystem \<Rightarrow> SharedFileSystem" where
  "drain s =
     (case operationQueue s of
        [] \<Rightarrow> s\<lparr>isProcessing := False\<rparr>
      | operation # rest \<Rightarrow>
          applyOperation operation
            (s\<lparr>operationQueue := rest, trace := trace s @ [Started operation]\<rparr>))"

text \<open>
  The awaited promise resolves. Inside \<open>applyOperation\<close>, the cache is written and the
  function goes on, to its next \<open>await\<close> or to its end; in \<open>processOperation\<close>, the loop
  goes on.
\<close>

definition resolved :: "SharedFileSystem \<Rightarrow> SharedFileSystem" where
  "resolved s =
     (case awaiting s of
        None \<Rightarrow> s
      | Some (operation, a) \<Rightarrow>
          (case a of
             Upsert \<Rightarrow>
               complete operation
                 (s\<lparr>fileCache := (fileCache s)
                      (node_path (op_file operation) \<mapsto> op_file operation)\<rparr>)
           | DeleteRow \<Rightarrow>
               complete operation
                 (s\<lparr>fileCache := (fileCache s)(node_path (op_file operation) := None)\<rparr>)
           | DeletePrevious \<Rightarrow>
               s\<lparr>fileCache := (case previousPath operation of
                                  None \<Rightarrow> fileCache s
                                | Some pp \<Rightarrow> (fileCache s)(pp := None)),
                 awaiting := Some (operation, InsertRow)\<rparr>
           | InsertRow \<Rightarrow>
               complete operation
                 (s\<lparr>fileCache := (fileCache s)
                      (node_path (op_file operation) \<mapsto> op_file operation)\<rparr>)
           | Return \<Rightarrow> drain (s\<lparr>awaiting := None\<rparr>)))"

text \<open>
  The awaited promise rejects: the exception leaves \<open>applyOperation\<close>, with the cache as
  it has been written so far, and ends the loop before the flag is cleared. The promise
  of an \<open>applyOperation\<close> that has returned does not reject.
\<close>

definition rejected :: "SharedFileSystem \<Rightarrow> SharedFileSystem" where
  "rejected s =
     (case awaiting s of
        None \<Rightarrow> s
      | Some (operation, a) \<Rightarrow>
          if a = Return then s
          else s\<lparr>awaiting := None, trace := trace s @ [Failed operation]\<rparr>)"

text \<open>
  \<open>processOperation\<close> up to its first \<open>await\<close>: the operation is pushed and, when no loop
  is running, one is started.
\<close>

definition processOperation :: "FileOperation \<Rightarrow> SharedFileSystem \<Rightarrow> SharedFileSystem" where
  "processOperation operation s =
     (let s1 = s\<lparr>operationQueue := operationQueue s @ [operation]\<rparr> in
      if isProcessing s1 then s1 else drain (s1\<lparr>isProcessing := True\<rparr>))"

text \<open>
  The events of the file system: a call of \<open>processOperation\<close>, the awaited promise
  resolving or rejecting, a call of \<open>watchFile\<close> and a call of the function it returned.
\<close>

datatype QueueEvent =
    ProcessOperation FileOperation
  | Resolved
  | Rejected
  | WatchFile string Callback
  | Unwatch string Callback

fun fs_step :: "QueueEvent \<Rightarrow> SharedFileSystem \<Rightarrow> SharedFileSystem" where
  "fs_step (ProcessOperation operation) s = processOperation operation s"
| "fs_step Resolved s = resolved s"
| "fs_step Rejected s = rejected s"
| "fs_step (WatchFile p callback) s = watchFile p callback s"
| "fs_step (Unwatch p callback) s = unwatch p callback s"

text \<open>The events in the order in which they happen.\<close>

definition fs_run :: "QueueEvent list \<Rightarrow> SharedFileSystem \<Rightarrow> SharedFileSystem" where
  "fs_run evs s = foldl (\<lambda>s ev. fs_step ev s) s evs"

text \<open>The operations of a run in the order they were enqueued.\<close>

fun enqueued :: "QueueEvent list \<Rightarrow> FileOperation list" where
  "enqueued [] = []"
| "enqueued (ProcessOperation operation # evs) = operation # enqueued evs"
| "enqueued (ev # evs) = enqueued evs"

text \<open>
  The operations of a trace that were started, finished, failed, and finished or failed.
\<close>

fun started :: "Trace list \<Rightarrow> FileOperation list" where
  "started [] = []"
| "started (Started operation # t) = operation # started t"
| "started (e # t) = started t"

fun finished :: "Trace list \<Rightarrow> FileOperation list" where
  "finished [] = []"
| "finished (Finished operation # t) = operation # finished t"
| "finished (e # t) = finished t"

fun failed :: "Trace list \<Rightarrow> FileOperation list" where
  "failed [] = []"
| "failed (Failed operation # t) = operation # failed t"
| "failed (e # t) = failed t"

fun settled :: "Trace list \<Rightarrow> FileOperation list" where
  "settled [] = []"
| "settled (Started operation # t) = settled t"
| "settled (Finished operation # t) = operation # settled t"
| "settled (Failed operation # t) = operation # settled t"

text \<open>
  One at a time: read from a point where \<open>cur\<close> is the operation in progress, a trace is
  sequential when an operation is started only while none is in progress, and only the
  operation in progress finishes or fails. \<open>in_progress\<close> is the operation in progress
  at the end of the trace.
\<close>

fun sequential_from :: "FileOperation option \<Rightarrow> Trace list \<Rightarrow> bool" where
  "sequential_from cur [] = True"
| "sequential_from cur (Started operation # t) =
     (cur = None \<and> sequential_from (Some operation) t)"
| "sequential_from cur (Finished operation # t) =
     (cur = Some operation \<and> sequential_from None t)"
| "sequential_from cur (Failed operation # t) =
     (cur = Some operation \<and> sequential_from None t)"

fun in_progress :: "FileOperation option \<Rightarrow> Trace list \<Rightarrow> FileOperation option" where
  "in_progress cur [] = cur"
| "in_progress cur (Started operation # t) = in_progress (Some operation) t"
| "in_progress cur (Finished operation # t) = in_progress None t"
| "in_progress cur (Failed operation # t) = in_progress None t"

text \<open>The operation whose \<open>applyOperation\<close> is suspended at one of its database calls.\<close>

definition applying :: "SharedFileSystem \<Rightarrow> FileOperation option" where
  "applying s =
     (case awaiting s of
        None \<Rightarrow> None
      | Some (operation, a) \<Rightarrow> if a = Return then None else Some operation)"

text \<open>
  The write of an operation is in the cache: the file under its path for a create, an
  update and a move, nothing under its path for a delete.
\<close>

definition written :: "FileOperation \<Rightarrow> (string \<rightharpoonup> FileNode) \<Rightarrow> bool" where
  "written operation cache =
     (case op_type operation of
        Create \<Rightarrow> cache (node_path (op_file operation)) = Some (op_file operation)
      | Update \<Rightarrow> cache (node_path (op_file operation)) = Some (op_file operation)
      | Delete \<Rightarrow> cache (node_path (op_file operation)) = None
      | Move \<Rightarrow> cache (node_path (op_file operation)) = Some (op_file operation)
      | Rename \<Rightarrow> True)"

text \<open>
  The promises that have to resolve before the loop has drained the queue: those of the
  operation it is suspended in, and those of the operations in the queue.
\<close>

definition awaits :: "FileOperation \<Rightarrow> nat" where
  "awaits operation =
     (case op_type operation of
        Move \<Rightarrow> if has_previousPath operation then 3 else 2
      | Rename \<Rightarrow> 1
      | _ \<Rightarrow> 2)"

definition needed :: "SharedFileSystem \<Rightarrow> nat" where
  "needed s =
     (case awaiting s of
        None \<Rightarrow> 0
      | Some (operation, a) \<Rightarrow>
          (case a of DeletePrevious \<Rightarrow> 3 | Return \<Rightarrow> 1 | _ \<Rightarrow> 2)) +
     sum_list (map awaits (operationQueue s))"

text \<open>
  No watcher throws for the file of an operation that is suspended or in the queue.
\<close>

definition calm :: "SharedFileSystem \<Rightarrow> bool" where
  "calm s =
     ((case awaiting s of
         None \<Rightarrow> True
       | Some (operation, a) \<Rightarrow> notifyWatchers (op_file operation) s) \<and>
      list_all (\<lambda>operation. notifyWatchers (op_file operation) s) (operationQueue s))"

text \<open>An operation that creates an empty file at a path, for the examples.\<close>

definition create_at :: "string \<Rightarrow> FileOperation" where
  "create_at p =
     \<lparr>op_type = Create,
      op_file = \<lparr>node_id = p, node_name = p, node_path = p, node_type = ''file'',
                 node_content = Some [], node_projectId = ''p'', createdBy = ''u'',
                 updatedBy = ''u'', createdAt = [], updatedAt = []\<rparr>,
      previousPath = None, op_userId = ''u'', op_timestamp = 0\<rparr>"

text \<open>An operation that moves the file at a path to another path, for the examples.\<close>

definition move_to :: "string \<Rightarrow> string \<Rightarrow> FileOperation" where
  "move_to p p' =
     \<lparr>op_type = Move,
      op_file = \<lparr>node_id = p, node_name = p', node_path = p', node_type = ''file'',
                 node_content = Some [], node_projectId = ''p'', createdBy = ''u'',
                 updatedBy = ''u'', createdAt = [], updatedAt = []\<rparr>,
      previousPath = Some p, op_userId = ''u'', op_timestamp = 0\<rparr>"

text \<open>The operations on one entity: those whose file has the path \<open>p\<close>.\<close>

definition on_path :: "string \<Rightarrow> FileOperation list \<Rightarrow> FileOperation list" where
  "on_path p ops = filter (\<lambda>operation. node_path (op_file operation) = p) ops"

text \<open>
  The invariant of the queue after the events \<open>evs\<close>: what was started and what still
  waits is what was enqueued, in that order; the trace is sequential and ends with the
  operation that is being applied; what finished or failed, and the operation that is
  being applied, is what was started; outside a drain loop the queue is empty; the
  loop is suspended at a database call of the type of its operation; and, as long as no
  operation has failed, the loop is suspended whenever the flag is set.
\<close>

definition queue_inv :: "QueueEvent list \<Rightarrow> SharedFileSystem \<Rightarrow> bool" where
  "queue_inv evs s =
     (started (trace s) @ operationQueue s = enqueued evs \<and>
      sequential_from None (trace s) \<and>
      in_progress None (trace s) = applying s \<and>
      settled (trace s) @ (case applying s of None \<Rightarrow> [] | Some operation \<Rightarrow> [operation]) =
        started (trace s) \<and>
      (isProcessing s \<or> (operationQueue s = [] \<and> awaiting s = None)) \<and>
      (case awaiting s of
         None \<Rightarrow> True
       | Some (operation, a) \<Rightarrow>
           (case a of
              Upsert \<Rightarrow> op_type operation = Create \<or> op_type operation = Update
            | DeleteRow \<Rightarrow> op_type operation = Delete
            | DeletePrevious \<Rightarrow> op_type operation = Move \<and> has_previousPath operation
            | InsertRow \<Rightarrow> op_type operation = Move
            | Return \<Rightarrow> True)) \<and>
      (failed (trace s) = [] \<longrightarrow> (isProcessing s \<longleftrightarrow> awaiting s \<noteq> None)))"

section \<open>Lines and strings\<close>

lemma split_nl_not_Nil [simp]: "split_nl s \<noteq> []"
  by (induction s) (auto split: list.splits)

lemma split_nl_no_newline: "CHR 0x0A \<notin> set s \<Longrightarrow> split_nl s = [s]"
  by (induction s) auto

lemma split_nl_append_newline:
  "split_nl (a @ CHR 0x0A # b) = split_nl a @ split_nl b"
  by (induction a) (auto split: list.splits)

lemma split_nl_lines_clean: "l \<in> set (split_nl s) \<Longrightarrow> CHR 0x0A \<notin> set l"
proof (induction s arbitrary: l)
  case Nil
  then show ?case by simp
next
  case (Cons c cs)
  show ?case
  proof (cases "c = CHR 0x0A")
    case True
    with Cons show ?thesis by auto
  next
    case False
    obtain x xs where sp: "split_nl cs = x # xs"
      by (cases "split_nl cs") auto
    with Cons.prems False have "l = c # x \<or> l \<in> set xs" by auto
    then show ?thesis
    proof
      assume "l = c # x"
      moreover have "CHR 0x0A \<notin> set x" using Cons.IH [of x] sp by simp
      ultimately show ?thesis using False by auto
    next
      assume "l \<in> set xs"
      then show ?thesis using Cons.IH [of l] sp by simp
    qed
  qed
qed

lemma split_nl_prefix:
  "CHR 0x0A \<notin> set p \<Longrightarrow> split_nl (p @ s) = (p @ hd (split_nl s)) # tl (split_nl s)"
proof (induction p)
  case Nil
  then show ?case by simp
next
  case (Cons c p)
  then show ?case by (auto split: list.splits)
qed

lemma split_nl_suffix:
  "CHR 0x0A \<notin> set q \<Longrightarrow>
   split_nl (s @ q) = butlast (split_nl s) @ [last (split_nl s) @ q]"
proof (induction s)
  case Nil
  then show ?case by (simp add: split_nl_no_newline)
next
  case (Cons c s)
  then show ?case by (auto split: list.splits)
qed

lemma join_nl_Cons: "ls \<noteq> [] \<Longrightarrow> join_nl (l # ls) = l @ CHR 0x0A # join_nl ls"
  by (cases ls) auto

lemma split_join_concat: "xs \<noteq> [] \<Longrightarrow> split_nl (join_nl xs) = concat (map split_nl xs)"
proof (induction xs)
  case Nil
  then show ?case by simp
next
  case (Cons x xs)
  show ?case
  proof (cases "xs = []")
    case True
    then show ?thesis by simp
  next
    case False
    then show ?thesis
      using Cons.IH by (simp add: join_nl_Cons split_nl_append_newline)
  qed
qed

lemma concat_split_clean:
  "list_all (\<lambda>l. CHR 0x0A \<notin> set l) xs \<Longrightarrow> concat (map split_nl xs) = xs"
  by (induction xs) (auto simp: split_nl_no_newline)

lemma split_join_buffer: "is_buffer ls \<Longrightarrow> split_nl (join_nl ls) = ls"
  by (simp add: is_buffer_def split_join_concat concat_split_clean)

lemma join_split: "join_nl (split_nl s) = s"
proof (induction s)
  case Nil
  then show ?case by simp
next
  case (Cons c s)
  obtain x xs where sp: "split_nl s = x # xs"
    by (cases "split_nl s") auto
  show ?case
  proof (cases "c = CHR 0x0A")
    case True
    then show ?thesis using Cons by (simp add: join_nl_Cons)
  next
    case False
    then show ?thesis using Cons sp by (cases xs) auto
  qed
qed

lemma is_buffer_split_nl: "is_buffer (split_nl s)"
  by (auto simp: is_buffer_def list_all_iff dest: split_nl_lines_clean)

section \<open>applyChange on a buffer of lines\<close>

lemma substring_0: "substring s 0 b = take (nat b) s"
  by (simp add: substring_def Let_def max_def min_def)

lemma substring_from_drop: "substring_from s a = drop (nat a) s"
  by (simp add: substring_from_def max_def min_def)

lemma join_nl_append:
  "xs \<noteq> [] \<Longrightarrow> ys \<noteq> [] \<Longrightarrow> join_nl (xs @ ys) = join_nl xs @ CHR 0x0A # join_nl ys"
proof (induction xs)
  case Nil
  then show ?case by simp
next
  case (Cons x xs)
  then show ?case by (cases "xs = []") (simp_all add: join_nl_Cons)
qed

lemma join_nl_split_middle:
  "join_nl (xs @ split_nl x @ ys) = join_nl (xs @ [x] @ ys)"
proof -
  have mid: "join_nl (split_nl x @ ys) = join_nl ([x] @ ys)"
    by (cases "ys = []") (simp_all add: join_nl_append join_split join_nl_Cons)
  show ?thesis
  proof (cases "xs = []")
    case True
    then show ?thesis using mid by simp
  next
    case False
    then show ?thesis using mid by (simp add: join_nl_append)
  qed
qed

lemma split_nl_glue:
  assumes p: "CHR 0x0A \<notin> set p" and s: "CHR 0x0A \<notin> set s"
  shows "((split_nl t)[0 := p @ split_nl t ! 0])
           [length ((split_nl t)[0 := p @ split_nl t ! 0]) - 1 :=
              ((split_nl t)[0 := p @ split_nl t ! 0]) !
                (length ((split_nl t)[0 := p @ split_nl t ! 0]) - 1) @ s]
         = split_nl (p @ t @ s)"
proof -
  define X where "X = (split_nl t)[0 := p @ split_nl t ! 0]"
  have X: "X = split_nl (p @ t)"
    unfolding X_def using split_nl_prefix [OF p, of t]
    by (cases "split_nl t") auto
  have ne: "X \<noteq> []" by (simp add: X)
  have "split_nl ((p @ t) @ s) = butlast X @ [last X @ s]"
    using split_nl_suffix [OF s, of "p @ t"] by (simp add: X)
  also have "\<dots> = X[length X - 1 := X ! (length X - 1) @ s]"
    using ne by (induction X rule: rev_induct) (auto simp: nth_append)
  finally show ?thesis by (simp add: X_def)
qed

lemma list_update_as_append:
  "i < length xs \<Longrightarrow> xs[i := x] = take i xs @ [x] @ drop (Suc i) xs"
  by (simp add: upd_conv_take_nth_drop)

lemma applyChange_lines:
  assumes buf: "is_buffer ls" and inb: "in_bounds ls r"
  shows "applyChange (join_nl ls) (Some r) t = Inr (join_nl (range_replace ls r t))"
proof -
  define i where "i = nat (startLineNumber r - 1)"
  define j where "j = nat (endLineNumber r - 1)"
  have sp: "split_nl (join_nl ls) = ls" using buf by (rule split_join_buffer)
  have ij: "i \<le> j" "j < length ls"
    using inb by (auto simp: in_bounds_def i_def j_def)
  have ii: "index_at ls (startLineNumber r - 1) = Some (ls ! i)"
    using inb by (auto simp: in_bounds_def index_at_def i_def)
  have jj: "index_at ls (endLineNumber r - 1) = Some (ls ! j)"
    using inb by (auto simp: in_bounds_def index_at_def j_def)
  have el: "nat (endLineNumber r) = Suc j"
    using inb by (auto simp: in_bounds_def j_def)
  have clean: "CHR 0x0A \<notin> set (ls ! i)" "CHR 0x0A \<notin> set (ls ! j)"
    using buf ij by (auto simp: is_buffer_def list_all_length)
  show ?thesis
  proof (cases "startLineNumber r = endLineNumber r")
    case True
    then have "j = i" by (simp add: i_def j_def)
    then show ?thesis
      using True ii ij el
      by (simp add: applyChange_def sp range_replace_def substring_0 substring_from_drop
          list_update_as_append join_nl_split_middle flip: i_def j_def)
  next
    case False
    have cp: "CHR 0x0A \<notin> set (take (nat (startColumn r - 1)) (ls ! i))"
      using clean by (auto dest: in_set_takeD)
    have cs: "CHR 0x0A \<notin> set (drop (nat (endColumn r - 1)) (ls ! j))"
      using clean by (auto dest: in_set_dropD)
    have spl: "splice ls (startLineNumber r - 1) (endLineNumber r - startLineNumber r + 1) X
        = take i ls @ X @ drop (Suc j) ls" for X
      using inb False ij
      by (auto simp: splice_def Let_def in_bounds_def i_def j_def max_def min_def nat_add_distrib
          intro!: arg_cong [where f = "\<lambda>n. drop n ls"])
    show ?thesis
      using False ii jj el
      by (simp add: applyChange_def sp range_replace_def substring_0 substring_from_drop
          Let_def split_nl_glue [OF cp cs, simplified] spl flip: i_def j_def)
  qed
qed

lemma range_replace_buffer:
  assumes buf: "is_buffer ls"
  shows "is_buffer (range_replace ls r t)"
  using buf
  by (auto simp: is_buffer_def range_replace_def list_all_iff
      dest: in_set_takeD in_set_dropD split_nl_lines_clean)

lemma length_split_nl_glue:
  assumes p: "CHR 0x0A \<notin> set p" and s: "CHR 0x0A \<notin> set s"
  shows "length (split_nl (p @ t @ s)) = length (split_nl t)"
proof -
  have "length (split_nl (p @ t @ s)) = length (split_nl (t @ s))"
    using split_nl_prefix [OF p, of "t @ s"] by (cases "split_nl (t @ s)") auto
  also have "\<dots> = length (split_nl t)"
    using split_nl_suffix [OF s, of t] by (cases "split_nl t" rule: rev_cases) auto
  finally show ?thesis .
qed

lemma hd_split_nl_glue:
  assumes p: "CHR 0x0A \<notin> set p"
  shows "take (length p) (hd (split_nl (p @ u))) = p"
  using split_nl_prefix [OF p, of u] by simp

lemma last_split_nl_glue:
  assumes p: "CHR 0x0A \<notin> set p" and s: "CHR 0x0A \<notin> set s"
  shows "drop ((if length (split_nl t) = 1 then length p else 0) + length (last (split_nl t)))
           (last (split_nl (p @ t @ s))) = s"
proof -
  obtain x xs where ts: "split_nl t = x # xs" by (cases "split_nl t") auto
  have pt: "split_nl (p @ t) = (p @ x) # xs"
    using split_nl_prefix [OF p, of t] ts by simp
  have "split_nl ((p @ t) @ s) = butlast ((p @ x) # xs) @ [last ((p @ x) # xs) @ s]"
    using split_nl_suffix [OF s, of "p @ t"] pt by simp
  then have "last (split_nl (p @ t @ s)) = last ((p @ x) # xs) @ s" by simp
  then show ?thesis using ts by (cases "xs = []") auto
qed

lemma insert_then_delete_lines:
  assumes buf: "is_buffer ls"
    and inb: "in_bounds ls \<lparr>startLineNumber = l, startColumn = c, endLineNumber = l, endColumn = c\<rparr>"
  shows "in_bounds (range_replace ls \<lparr>startLineNumber = l, startColumn = c, endLineNumber = l, endColumn = c\<rparr> t)
           (inserted_range l c t)"
    and "range_replace (range_replace ls \<lparr>startLineNumber = l, startColumn = c, endLineNumber = l, endColumn = c\<rparr> t)
           (inserted_range l c t) [] = ls"
proof -
  define i where "i = nat (l - 1)"
  define k where "k = nat (c - 1)"
  define p where "p = take k (ls ! i)"
  define s where "s = drop k (ls ! i)"
  define M where "M = split_nl (p @ t @ s)"
  define n where "n = length (split_nl t)"
  define e where "e = (if n = 1 then k else 0) + length (last (split_nl t))"
  have l: "l = int i + 1" and c: "c = int k + 1" and i: "i < length ls" and k: "k \<le> length (ls ! i)"
    using inb by (auto simp: in_bounds_def i_def k_def)
  have clean: "CHR 0x0A \<notin> set (ls ! i)"
    using buf i by (auto simp: is_buffer_def list_all_length)
  have cp: "CHR 0x0A \<notin> set p" and cs: "CHR 0x0A \<notin> set s"
    using clean by (auto simp: p_def s_def dest: in_set_takeD in_set_dropD)
  have lp: "length p = k" using k by (simp add: p_def)
  have ps: "p @ s = ls ! i" by (simp add: p_def s_def)
  have n: "0 < n" by (simp add: n_def)
  have lM: "length M = n"
    unfolding M_def n_def by (rule length_split_nl_glue [OF cp cs])
  have M0: "take k (M ! 0) = p"
    using hd_split_nl_glue [OF cp, of "t @ s"] lM n
    by (simp add: M_def lp hd_conv_nth)
  have Mne: "M \<noteq> []" by (simp add: M_def)
  have lastM: "last M = M ! (n - 1)"
    using Mne lM by (simp add: last_conv_nth)
  have "drop e (last M) = s"
    using last_split_nl_glue [OF cp cs, of t]
    by (simp only: e_def n_def M_def lp)
  then have Ml: "drop e (M ! (n - 1)) = s"
    by (simp only: lastM)
  have lM0: "k \<le> length (M ! 0)"
    using M0 lp by (metis length_take min.cobounded1)
  have lMl: "e \<le> length (M ! (n - 1)) "
  proof -
    have "length (last (split_nl ((p @ t) @ s))) = length (last (split_nl (p @ t))) + length s"
      using split_nl_suffix [OF cs, of "p @ t"] by simp
    moreover have "length (last (split_nl (p @ t))) = e"
      using split_nl_prefix [OF cp, of t]
      by (cases "split_nl t") (auto simp: e_def n_def lp)
    ultimately have "e \<le> length (last M)" by (simp add: M_def)
    then show ?thesis by (simp only: lastM)
  qed
  define ls1 where "ls1 = take i ls @ M @ drop (Suc i) ls"
  have rr: "range_replace ls \<lparr>startLineNumber = l, startColumn = c, endLineNumber = l, endColumn = c\<rparr> t = ls1"
    by (simp add: range_replace_def ls1_def M_def p_def s_def l c nat_add_distrib)
  have ir: "inserted_range l c t =
      \<lparr>startLineNumber = int i + 1, startColumn = int k + 1,
       endLineNumber = int i + int n, endColumn = int e + 1\<rparr>"
    using n by (auto simp: inserted_range_def Let_def l c e_def n_def)
  have len1: "length ls1 = i + n + (length ls - Suc i)"
    using i by (simp add: ls1_def lM)
  have at_i: "ls1 ! i = M ! 0"
    using i n lM by (simp add: ls1_def nth_append)
  have at_e: "ls1 ! (i + n - 1) = M ! (n - 1)"
  proof -
    have "i + n - 1 = length (take i ls) + (n - 1)" using i n by simp
    then have "ls1 ! (i + n - 1) = (M @ drop (Suc i) ls) ! (n - 1)"
      by (simp only: ls1_def nth_append_length_plus)
    also have "\<dots> = M ! (n - 1)" using n lM by (simp add: nth_append)
    finally show ?thesis .
  qed
  have nat_e: "nat (int i + int n - 1) = i + n - 1" "nat (int i + int n) = i + n" using n by simp_all
  show "in_bounds (range_replace ls \<lparr>startLineNumber = l, startColumn = c, endLineNumber = l, endColumn = c\<rparr> t)
           (inserted_range l c t)"
    unfolding rr ir using n i lM0 lMl
    by (auto simp: in_bounds_def len1 at_i at_e [unfolded One_nat_def] nat_e e_def)
  have tk: "take i ls1 = take i ls" using i by (simp add: ls1_def)
  have dr: "drop (i + n) ls1 = drop (Suc i) ls" using i by (simp add: ls1_def lM)
  have "range_replace ls1 (inserted_range l c t) [] =
      take i ls @ split_nl (p @ s) @ drop (Suc i) ls"
    unfolding ir
    by (simp add: range_replace_def at_i at_e [unfolded One_nat_def] nat_e M0
        Ml [unfolded One_nat_def] tk dr)
  also have "\<dots> = take i ls @ [ls ! i] @ drop (Suc i) ls"
    using clean by (simp add: ps split_nl_no_newline)
  also have "\<dots> = ls" using i by (simp add: Cons_nth_drop_Suc)
  finally show "range_replace (range_replace ls \<lparr>startLineNumber = l, startColumn = c, endLineNumber = l, endColumn = c\<rparr> t)
           (inserted_range l c t) [] = ls"
    by (simp add: rr)
qed

section \<open>Lines that are missing, columns out of their line\<close>

lemma applyChange_lines_missing:
  "lines_missing (split_nl c) r \<Longrightarrow> applyChange c (Some r) t = Inl TypeError"
  by (auto simp: applyChange_def lines_missing_def index_at_def Let_def)

lemma applyChange_lines_present:
  "\<not> lines_missing (split_nl c) r \<Longrightarrow> \<exists>c'. applyChange c (Some r) t = Inr c'"
  by (auto simp: applyChange_def lines_missing_def index_at_def Let_def)

lemma take_clamp: "take (nat (max 1 (min a (int (length s) + 1)) - 1)) s = take (nat (a - 1)) s"
  by (auto simp: max_def min_def)

lemma drop_clamp: "drop (nat (max 1 (min a (int (length s) + 1)) - 1)) s = drop (nat (a - 1)) s"
  by (auto simp: max_def min_def)

lemma applyChange_clamp_columns:
  "applyChange c (Some (clamp_columns (split_nl c) r)) t = applyChange c (Some r) t"
  by (auto simp: applyChange_def clamp_columns_def index_at_def Let_def substring_0
      substring_from_drop take_clamp drop_clamp split: option.splits)

lemma in_bounds_clamp_columns:
  assumes "\<not> lines_missing ls r" and "start_before_end r"
  shows "in_bounds ls (clamp_columns ls r)"
  using assms
  by (auto simp: in_bounds_def clamp_columns_def lines_missing_def start_before_end_def
      max_def min_def)

section \<open>The handlers, case by case\<close>

lemma one_room_reached:
  "state (run (\<lambda>_. Some (JObj []))
     [(0, Connect ''s1'' \<lparr>q_projectId = Some ''p'', q_userId = Some ''u'', q_profile = Some ''{}''\<rparr>),
      (1, ChangeEv ''s1'' (Some \<lparr>change_range =
             Some \<lparr>startLineNumber = 1, startColumn = 1, endLineNumber = 1, endColumn = 1\<rparr>,
           change_text = JStr ''abc''\<rparr>))] init) = one_room ''abc''"
  by (simp add: init_def connection_def on_change_def quiet_def io_to_emit_def
      socket_to_emit_def members_def applyChange_def index_at_def substring_def
      substring_from_def Let_def one_room_def)

lemma connection_accepted:
  assumes "q_projectId q = Some pid" "q_userId q = Some uid" "q_profile q = Some prof"
    and "pid \<noteq> []" "uid \<noteq> []" "prof \<noteq> []" and "JSON_parse prof = Some p"
  shows "rooms s pid = Some ref \<Longrightarrow>
           connection JSON_parse now sid q s =
             \<lparr>state = s\<lparr>adapter := List.insert (sid, pid) (adapter s),
                          objects := (objects s)[ref := (objects s ! ref)
                            \<lparr>users := AList.update uid
                               (joined_user uid p now)
                               (users (objects s ! ref))\<rparr>],
                          handlers := (handlers s)(sid \<mapsto>
                            \<lparr>c_projectId = pid, c_userId = uid, c_room = ref\<rparr>)\<rparr>,
              emitted = [\<lparr>to_room = pid,
                          recipients = members (s\<lparr>adapter := List.insert (sid, pid) (adapter s)\<rparr>) pid,
                          message = Presence (map snd (AList.update uid
                               (joined_user uid p now)
                               (users (objects s ! ref))))\<rparr>],
              raised = None, disconnected = False\<rparr>"
    and "rooms s pid = None \<Longrightarrow>
           connection JSON_parse now sid q s =
             \<lparr>state = s\<lparr>adapter := List.insert (sid, pid) (adapter s),
                          objects := objects s @ [\<lparr>users = [(uid,
                               (joined_user uid p now))], content = []\<rparr>],
                          rooms := (rooms s)(pid \<mapsto> length (objects s)),
                          handlers := (handlers s)(sid \<mapsto>
                            \<lparr>c_projectId = pid, c_userId = uid, c_room = length (objects s)\<rparr>)\<rparr>,
              emitted = [\<lparr>to_room = pid,
                          recipients = members (s\<lparr>adapter := List.insert (sid, pid) (adapter s)\<rparr>) pid,
                          message = Presence [(joined_user uid p now)]\<rparr>],
              raised = None, disconnected = False\<rparr>"
  using assms
  by (simp_all add: connection_def Let_def io_to_emit_def members_def joined_user_def)

lemma objects_length_step:
  "length (objects (state (step JSON_parse now ev s))) =
     length (objects s) + (if constructs s ev then 1 else 0)"
proof (cases ev)
  case (Connect sid q)
  then show ?thesis
    by (auto simp: connection_def constructs_def accepted_def quiet_def Let_def
        split: option.splits)
next
  case (Cursor sid payload)
  then show ?thesis
    by (auto simp: on_cursor_def constructs_def quiet_def Let_def split: option.splits)
next
  case (ChangeEv sid payload)
  then show ?thesis
    by (auto simp: on_change_def constructs_def quiet_def Let_def
        split: option.splits jsval.splits sum.splits)
next
  case (Disconnect sid)
  then show ?thesis
    by (auto simp: on_disconnect_def constructs_def quiet_def Let_def split: option.splits)
qed

lemma connection_cases:
  obtains (rejected) "\<not> accepted q"
      "connection JSON_parse now sid q s =
         \<lparr>state = s, emitted = [], raised = None, disconnected = True\<rparr>"
  | (unparsed) pid uid prof where
      "q_projectId q = Some pid" "q_userId q = Some uid" "q_profile q = Some prof"
      "pid \<noteq> []" "uid \<noteq> []" "prof \<noteq> []" "JSON_parse prof = None"
      "raised (connection JSON_parse now sid q s) = Some SyntaxError"
      "emitted (connection JSON_parse now sid q s) = []"
  | (joined) pid uid prof p where
      "q_projectId q = Some pid" "q_userId q = Some uid" "q_profile q = Some prof"
      "pid \<noteq> []" "uid \<noteq> []" "prof \<noteq> []" "JSON_parse prof = Some p"
proof (cases "accepted q")
  case False
  then have "connection JSON_parse now sid q s =
      \<lparr>state = s, emitted = [], raised = None, disconnected = True\<rparr>"
    by (auto simp: accepted_def connection_def split: option.splits)
  with False show ?thesis by (rule rejected)
next
  case True
  then obtain pid uid prof where q: "q_projectId q = Some pid" "q_userId q = Some uid"
      "q_profile q = Some prof" "pid \<noteq> []" "uid \<noteq> []" "prof \<noteq> []"
    by (auto simp: accepted_def split: option.splits)
  show ?thesis
  proof (cases "JSON_parse prof")
    case None
    have "raised (connection JSON_parse now sid q s) = Some SyntaxError"
      and "emitted (connection JSON_parse now sid q s) = []"
      using q None by (cases "rooms s pid"; simp add: connection_def Let_def)+
    with q None show ?thesis by (rule unparsed)
  next
    case (Some p)
    with q show ?thesis by (rule joined)
  qed
qed

lemma on_cursor_cases:
  obtains (silent) "state (on_cursor now sid payload s) = s"
      "emitted (on_cursor now sid payload s) = []"
  | (moved) cl upd user where
      "handlers s sid = Some cl" "payload = Some upd"
      "map_of (users (objects s ! c_room cl)) (c_userId cl) = Some user"
      "on_cursor now sid payload s =
         \<lparr>state = s\<lparr>objects := (objects s)[c_room cl := (objects s ! c_room cl)
              \<lparr>users := AList.update (c_userId cl)
                 (user\<lparr>cursor := cu_position upd, selection := cu_selection upd,
                       lastActive := now\<rparr>)
                 (users (objects s ! c_room cl))\<rparr>]\<rparr>,
          emitted = [\<lparr>to_room = c_projectId cl, recipients = members s (c_projectId cl),
              message = Presence (map snd (AList.update (c_userId cl)
                 (user\<lparr>cursor := cu_position upd, selection := cu_selection upd,
                       lastActive := now\<rparr>)
                 (users (objects s ! c_room cl))))\<rparr>],
          raised = None, disconnected = False\<rparr>"
proof (cases "handlers s sid")
  case None
  then show ?thesis by (intro silent) (simp_all add: on_cursor_def quiet_def)
next
  case (Some cl)
  show ?thesis
  proof (cases payload)
    case None
    with Some show ?thesis by (intro silent) (simp_all add: on_cursor_def quiet_def)
  next
    case upd: (Some upd)
    show ?thesis
    proof (cases "map_of (users (objects s ! c_room cl)) (c_userId cl)")
      case None
      with Some upd show ?thesis
        by (intro silent) (simp_all add: on_cursor_def quiet_def Let_def)
    next
      case user: (Some user)
      show ?thesis
        by (rule moved [OF Some upd user])
          (simp add: on_cursor_def Let_def Some upd user io_to_emit_def members_def)
    qed
  qed
qed

lemma on_disconnect_attached:
  assumes "handlers s sid = Some cl"
  shows "on_disconnect sid s =
     \<lparr>state = s\<lparr>adapter := filter (\<lambda>m. fst m \<noteq> sid) (adapter s),
                  objects := (objects s)[c_room cl := (objects s ! c_room cl)
                    \<lparr>users := AList.delete (c_userId cl) (users (objects s ! c_room cl))\<rparr>],
                  rooms := (if AList.delete (c_userId cl) (users (objects s ! c_room cl)) = []
                            then (rooms s)(c_projectId cl := None) else rooms s),
                  handlers := (handlers s)(sid := None)\<rparr>,
      emitted = [\<lparr>to_room = c_projectId cl,
                  recipients = members
                    (s\<lparr>adapter := filter (\<lambda>m. fst m \<noteq> sid) (adapter s)\<rparr>) (c_projectId cl),
                  message = Presence (map snd
                    (AList.delete (c_userId cl) (users (objects s ! c_room cl))))\<rparr>],
      raised = None, disconnected = False\<rparr>"
  using assms by (simp add: on_disconnect_def Let_def io_to_emit_def members_def)

section \<open>Sockets, rooms and handlers agree\<close>

lemma set_members:
  "set (members s p) = {sid. \<exists>r. (sid, r) \<in> set (adapter s) \<and> (r = p \<or> sid = p)}"
  by (auto simp: members_def image_iff)

lemma members_attached: "attached s \<Longrightarrow> set (members s p) = listeners s p"
  by (auto simp: set_members attached_def listeners_def participants_def)

lemma participants_listeners: "participants s p \<subseteq> listeners s p"
  by (simp add: listeners_def)

lemma attached_init: "attached init"
  by (simp add: attached_def init_def)

lemma attached_connection:
  assumes "attached s" and "handlers s sid = None"
    and "raised (connection JSON_parse now sid q s) = None"
  shows "attached (state (connection JSON_parse now sid q s))"
proof -
  have none: "(sid, p) \<notin> set (adapter s)" for p
    using assms(1,2) by (simp add: attached_def)
  show ?thesis
    using assms none
    by (auto simp: connection_def attached_def quiet_def Let_def
        split: option.splits if_splits)
qed

lemma attached_on_cursor:
  "attached s \<Longrightarrow> attached (state (on_cursor now sid payload s))"
  by (auto simp: on_cursor_def attached_def quiet_def Let_def split: option.splits)

lemma attached_on_change:
  "attached s \<Longrightarrow> attached (state (on_change sid payload s))"
  by (auto simp: on_change_def attached_def quiet_def Let_def
      split: option.splits jsval.splits sum.splits)

lemma attached_on_disconnect:
  "attached s \<Longrightarrow> attached (state (on_disconnect sid s))"
  by (auto simp: on_disconnect_def attached_def quiet_def Let_def split: option.splits)

lemma attached_step:
  assumes "attached s" and "fresh_socket s ev"
    and "raised (step JSON_parse now ev s) = None"
  shows "attached (state (step JSON_parse now ev s))"
  using assms
  by (cases ev)
    (simp_all add: fresh_socket_def attached_connection attached_on_cursor
      attached_on_change attached_on_disconnect)

lemma on_change_emitted:
  assumes "handlers s sid = Some cl"
  shows "emitted (on_change sid payload s) =
           [socket_to_emit s sid (c_projectId cl) (ChangeMsg payload)]"
  using assms
  by (simp add: on_change_def Let_def split: option.splits jsval.splits sum.splits)

lemma on_change_handlers: "handlers (state (on_change sid payload s)) = handlers s"
  by (simp add: on_change_def quiet_def Let_def split: option.splits jsval.splits sum.splits)

lemma listeners_cong: "handlers s' = handlers s \<Longrightarrow> listeners s' p = listeners s p"
  by (simp add: listeners_def participants_def)

lemma recipients_connection:
  assumes att: "attached s" and fresh: "handlers s sid = None"
    and em: "em \<in> set (emitted (connection JSON_parse now sid q s))"
  shows "(\<exists>ps. message em = Presence ps) \<and>
         set (recipients em) =
           listeners (state (connection JSON_parse now sid q s)) (to_room em) \<and>
         sid \<in> set (recipients em)"
proof (cases rule: connection_cases [of q JSON_parse now sid s])
  case rejected
  with em show ?thesis by simp
next
  case (unparsed pid uid prof)
  with em show ?thesis by simp
next
  case (joined pid uid prof p)
  have none: "(sid, r) \<notin> set (adapter s)" for r
    using att fresh by (simp add: attached_def)
  have mem: "set (members (s\<lparr>adapter := List.insert (sid, pid) (adapter s)\<rparr>) pid) =
      insert sid (listeners s pid)"
    using members_attached [OF att, of pid] none by (auto simp: set_members)
  have lis: "listeners (s'\<lparr>handlers := (handlers s)(sid \<mapsto>
      \<lparr>c_projectId = pid, c_userId = uid, c_room = ref\<rparr>)\<rparr>) pid = insert sid (listeners s pid)"
    for s' :: Server and ref
    using fresh by (auto simp: listeners_def participants_def)
  show ?thesis
  proof (cases "rooms s pid")
    case None
    note eq = connection_accepted(2) [where JSON_parse = JSON_parse and prof = prof,
        OF joined None, of now sid]
    show ?thesis
      using em by (simp add: eq mem lis)
  next
    case (Some ref)
    note eq = connection_accepted(1) [where JSON_parse = JSON_parse and prof = prof,
        OF joined Some, of now sid]
    show ?thesis
      using em by (simp add: eq mem lis)
  qed
qed

lemma recipients_on_cursor:
  assumes att: "attached s"
    and em: "em \<in> set (emitted (on_cursor now sid payload s))"
  shows "(\<exists>ps. message em = Presence ps) \<and>
         set (recipients em) = listeners (state (on_cursor now sid payload s)) (to_room em) \<and>
         sid \<in> set (recipients em)"
proof (cases "handlers s sid")
  case None
  with em show ?thesis by (simp add: on_cursor_def quiet_def)
next
  case (Some cl)
  have in_room: "sid \<in> listeners s (c_projectId cl)"
    using Some by (simp add: listeners_def participants_def)
  have same: "listeners (s\<lparr>objects := xs\<rparr>) p = listeners s p" for xs p
    by (rule listeners_cong) simp
  show ?thesis
    using em Some members_attached [OF att] in_room
    by (auto simp: on_cursor_def quiet_def Let_def io_to_emit_def same members_def
        split: option.splits)
qed

lemma recipients_on_change:
  assumes att: "attached s"
    and em: "em \<in> set (emitted (on_change sid payload s))"
  shows "message em = ChangeMsg payload \<and>
         set (recipients em) =
           listeners (state (on_change sid payload s)) (to_room em) - {sid} \<and>
         sid \<in> participants (state (on_change sid payload s)) (to_room em)"
proof (cases "handlers s sid")
  case None
  with em show ?thesis by (simp add: on_change_def quiet_def)
next
  case (Some cl)
  have "listeners (state (on_change sid payload s)) p = listeners s p" for p
    by (rule listeners_cong) (rule on_change_handlers)
  moreover have "participants (state (on_change sid payload s)) p = participants s p" for p
    by (simp add: participants_def on_change_handlers)
  moreover have "sid \<in> participants s (c_projectId cl)"
    using Some by (simp add: participants_def)
  ultimately show ?thesis
    using em members_attached [OF att, of "c_projectId cl"]
    by (simp add: on_change_emitted [OF Some] socket_to_emit_def)
qed

lemma recipients_on_disconnect:
  assumes att: "attached s"
    and em: "em \<in> set (emitted (on_disconnect sid s))"
  shows "(\<exists>ps. message em = Presence ps) \<and>
         set (recipients em) = listeners (state (on_disconnect sid s)) (to_room em) \<and>
         participants (state (on_disconnect sid s)) (to_room em) =
           participants s (to_room em) - {sid}"
proof (cases "handlers s sid")
  case None
  with em show ?thesis by (simp add: on_disconnect_def quiet_def)
next
  case (Some cl)
  let ?s0 = "s\<lparr>adapter := filter (\<lambda>m. fst m \<noteq> sid) (adapter s)\<rparr>"
  have mem: "set (members ?s0 p) = listeners s p - {sid}" for p
    using members_attached [OF att, of p] by (auto simp: set_members)
  have lis: "listeners (s'\<lparr>handlers := (handlers s)(sid := None)\<rparr>) p = listeners s p - {sid}"
    for s' :: Server and p
    by (auto simp: listeners_def participants_def)
  have par: "participants (s'\<lparr>handlers := (handlers s)(sid := None)\<rparr>) p =
      participants s p - {sid}" for s' :: Server and p
    by (auto simp: participants_def)
  note eq = on_disconnect_attached [OF Some]
  show ?thesis
    using em by (simp add: eq mem lis par)
qed

section \<open>Consistent states\<close>

lemma consistentD:
  assumes "consistent s"
  shows "handlers s sid = Some cl \<Longrightarrow> rooms s (c_projectId cl) = Some (c_room cl)"
    and "rooms s p = Some ref \<Longrightarrow> ref < length (objects s)"
    and "rooms s p = Some ref \<Longrightarrow> distinct (map fst (users (objects s ! ref)))"
    and "rooms s p = Some ref \<Longrightarrow> set (map fst (users (objects s ! ref))) = connected_users s p"
    and "rooms s p = Some ref \<Longrightarrow> kv \<in> set (users (objects s ! ref)) \<Longrightarrow> userId (snd kv) = fst kv"
    and "rooms s p = Some ref \<Longrightarrow> rooms s p' = Some ref \<Longrightarrow> p = p'"
    and "handlers s sid = Some cl \<Longrightarrow> handlers s sid' = Some cl' \<Longrightarrow>
         c_projectId cl = c_projectId cl' \<Longrightarrow> c_userId cl = c_userId cl' \<Longrightarrow> sid = sid'"
  using assms unfolding consistent_def by blast+

lemma consistentI:
  assumes "\<And>sid cl. handlers s sid = Some cl \<Longrightarrow> rooms s (c_projectId cl) = Some (c_room cl)"
    and "\<And>p ref. rooms s p = Some ref \<Longrightarrow> ref < length (objects s)"
    and "\<And>p ref. rooms s p = Some ref \<Longrightarrow> distinct (map fst (users (objects s ! ref)))"
    and "\<And>p ref. rooms s p = Some ref \<Longrightarrow>
           set (map fst (users (objects s ! ref))) = connected_users s p"
    and "\<And>p ref kv. rooms s p = Some ref \<Longrightarrow> kv \<in> set (users (objects s ! ref)) \<Longrightarrow>
           userId (snd kv) = fst kv"
    and "\<And>p p' ref. rooms s p = Some ref \<Longrightarrow> rooms s p' = Some ref \<Longrightarrow> p = p'"
    and "\<And>sid sid' cl cl'. handlers s sid = Some cl \<Longrightarrow> handlers s sid' = Some cl' \<Longrightarrow>
           c_projectId cl = c_projectId cl' \<Longrightarrow> c_userId cl = c_userId cl' \<Longrightarrow> sid = sid'"
  shows "consistent s"
  unfolding consistent_def using assms by blast

lemma consistent_init: "consistent init"
  by (simp add: consistent_def init_def)

lemma connected_users_cong:
  "handlers s' = handlers s \<Longrightarrow> connected_users s' p = connected_users s p"
  by (simp add: connected_users_def)

lemma connected_users_add:
  assumes "handlers s sid = None" and "handlers s' = (handlers s)(sid \<mapsto> cl)"
  shows "connected_users s' p =
     (if c_projectId cl = p then insert (c_userId cl) (connected_users s p)
      else connected_users s p)"
proof -
  have h: "handlers s' x = (if x = sid then Some cl else handlers s x)" for x
    using assms(2) by simp
  have old: "x \<noteq> sid" if "handlers s x = Some cl'" for x cl'
    using that assms(1) by auto
  show ?thesis
  proof (intro set_eqI iffI)
    fix uid
    assume "uid \<in> connected_users s' p"
    then obtain x cl' where "handlers s' x = Some cl'" "c_projectId cl' = p" "c_userId cl' = uid"
      by (auto simp: connected_users_def)
    then show "uid \<in> (if c_projectId cl = p then insert (c_userId cl) (connected_users s p)
      else connected_users s p)"
      by (cases "x = sid") (auto simp: h connected_users_def)
  next
    fix uid
    assume r: "uid \<in> (if c_projectId cl = p then insert (c_userId cl) (connected_users s p)
      else connected_users s p)"
    show "uid \<in> connected_users s' p"
    proof (cases "c_projectId cl = p \<and> uid = c_userId cl")
      case True
      then have "handlers s' sid = Some cl \<and> c_projectId cl = p \<and> c_userId cl = uid"
        by (simp add: h)
      then show ?thesis unfolding connected_users_def by blast
    next
      case False
      with r have "uid \<in> connected_users s p" by (auto split: if_splits)
      then obtain x cl' where x: "handlers s x = Some cl'" "c_projectId cl' = p" "c_userId cl' = uid"
        by (auto simp: connected_users_def)
      then have "handlers s' x = Some cl'" using old [OF x(1)] by (simp add: h)
      with x show ?thesis unfolding connected_users_def by blast
    qed
  qed
qed

lemma connected_users_remove:
  assumes "consistent s" and "handlers s sid = Some cl"
    and "handlers s' = (handlers s)(sid := None)"
  shows "connected_users s' p =
     (if c_projectId cl = p then connected_users s p - {c_userId cl}
      else connected_users s p)"
proof -
  have h: "handlers s' x = (if x = sid then None else handlers s x)" for x
    using assms(3) by simp
  have uniq: "sid' = sid" if "handlers s sid' = Some cl'" "c_projectId cl' = c_projectId cl"
      "c_userId cl' = c_userId cl" for sid' cl'
    using consistentD(7) [OF assms(1) that(1) assms(2)] that by simp
  show ?thesis
  proof (intro set_eqI iffI)
    fix uid
    assume "uid \<in> connected_users s' p"
    then obtain x cl' where x: "handlers s' x = Some cl'" "c_projectId cl' = p" "c_userId cl' = uid"
      by (auto simp: connected_users_def)
    then have ne: "x \<noteq> sid" and hx: "handlers s x = Some cl'"
      by (auto simp: h split: if_splits)
    have in_s: "uid \<in> connected_users s p"
      using hx x unfolding connected_users_def by blast
    have "uid \<noteq> c_userId cl" if "c_projectId cl = p"
      using uniq [OF hx] that x ne by auto
    with in_s show "uid \<in> (if c_projectId cl = p then connected_users s p - {c_userId cl}
      else connected_users s p)"
      by auto
  next
    fix uid
    assume r: "uid \<in> (if c_projectId cl = p then connected_users s p - {c_userId cl}
      else connected_users s p)"
    then have "uid \<in> connected_users s p" by (auto split: if_splits)
    then obtain x cl' where x: "handlers s x = Some cl'" "c_projectId cl' = p" "c_userId cl' = uid"
      by (auto simp: connected_users_def)
    have "x \<noteq> sid"
    proof
      assume "x = sid"
      with x assms(2) have "cl' = cl" by simp
      with x r show False by auto
    qed
    then have "handlers s' x = Some cl'" using x by (simp add: h)
    with x show "uid \<in> connected_users s' p" unfolding connected_users_def by blast
  qed
qed

lemma update_pairs:
  "P (k, v) \<Longrightarrow> \<forall>kv \<in> set al. P kv \<Longrightarrow> kv \<in> set (AList.update k v al) \<Longrightarrow> P kv"
  by (induction al) (auto split: if_splits)

lemma delete_pairs: "kv \<in> set (AList.delete k al) \<Longrightarrow> kv \<in> set al"
  by (auto simp: AList.delete_eq)

lemma set_update_keys: "set (map fst (AList.update k v al)) = insert k (set (map fst al))"
  by (auto simp: AList.update_keys)

lemma set_delete_keys: "set (map fst (AList.delete k al)) = set (map fst al) - {k}"
  by (auto simp: AList.delete_keys)

lemma consistent_adapter [simp]: "consistent (s\<lparr>adapter := a\<rparr>) = consistent s"
  by (simp add: consistent_def connected_users_def)

lemma consistent_fields:
  assumes "objects s' = objects s" "rooms s' = rooms s" "handlers s' = handlers s"
  shows "consistent s' = consistent s"
  by (simp add: consistent_def connected_users_def assms)

lemma consistent_update_room:
  assumes c: "consistent s"
    and keys: "map fst (users r') = map fst (users (objects s ! ref))"
    and ids: "\<And>p kv. rooms s p = Some ref \<Longrightarrow> kv \<in> set (users r') \<Longrightarrow>
                userId (snd kv) = fst kv"
  shows "consistent (s\<lparr>objects := (objects s)[ref := r']\<rparr>)"
proof -
  let ?s' = "s\<lparr>objects := (objects s)[ref := r']\<rparr>"
  have cu: "connected_users ?s' p = connected_users s p" for p
    by (rule connected_users_cong) simp
  have nth: "(objects s)[ref := r'] ! ref' = (if ref' = ref then r' else objects s ! ref')"
    if "rooms s p = Some ref'" for p ref'
    using consistentD(2) [OF c that] by simp
  show ?thesis
  proof (rule consistentI)
    fix sid cl
    assume "handlers ?s' sid = Some cl"
    then show "rooms ?s' (c_projectId cl) = Some (c_room cl)"
      using consistentD(1) [OF c] by simp
  next
    fix p ref'
    assume r: "rooms ?s' p = Some ref'"
    then have r0: "rooms s p = Some ref'" by simp
    show "ref' < length (objects ?s')"
      using consistentD(2) [OF c r0] by simp
    show "distinct (map fst (users (objects ?s' ! ref')))"
      using consistentD(3) [OF c r0] by (auto simp: nth [OF r0] keys)
    show "set (map fst (users (objects ?s' ! ref'))) = connected_users ?s' p"
      using consistentD(4) [OF c r0] by (auto simp: nth [OF r0] keys cu simp del: set_map)
    fix kv
    assume "kv \<in> set (users (objects ?s' ! ref'))"
    then show "userId (snd kv) = fst kv"
      using consistentD(5) [OF c r0, of kv] ids [of p kv] r0
      by (auto simp: nth [OF r0] split: if_splits)
  next
    fix p p' ref'
    assume "rooms ?s' p = Some ref'" "rooms ?s' p' = Some ref'"
    then show "p = p'" using consistentD(6) [OF c, of p ref' p'] by simp
  next
    fix sid sid' cl cl'
    assume "handlers ?s' sid = Some cl" "handlers ?s' sid' = Some cl'"
      "c_projectId cl = c_projectId cl'" "c_userId cl = c_userId cl'"
    then show "sid = sid'" using consistentD(7) [OF c, of sid cl sid' cl'] by simp
  qed
qed

lemma consistent_room_created:
  assumes c: "consistent s" and none: "rooms s pid = None"
  shows "consistent (s\<lparr>objects := objects s @ [\<lparr>users = [], content = []\<rparr>],
                        rooms := (rooms s)(pid \<mapsto> length (objects s))\<rparr>)"
proof -
  let ?s' = "s\<lparr>objects := objects s @ [\<lparr>users = [], content = []\<rparr>],
                rooms := (rooms s)(pid \<mapsto> length (objects s))\<rparr>"
  have cu: "connected_users ?s' p = connected_users s p" for p
    by (rule connected_users_cong) simp
  have nobody: "connected_users s pid = {}"
    using consistentD(1) [OF c] none by (fastforce simp: connected_users_def)
  have other: "c_projectId cl \<noteq> pid" if "handlers s sid = Some cl" for sid cl
    using consistentD(1) [OF c that] none by auto
  show ?thesis
  proof (rule consistentI)
    fix sid cl
    assume "handlers ?s' sid = Some cl"
    then have h: "handlers s sid = Some cl" by simp
    show "rooms ?s' (c_projectId cl) = Some (c_room cl)"
      using consistentD(1) [OF c h] other [OF h] by simp
  next
    fix p ref
    assume r: "rooms ?s' p = Some ref"
    show "ref < length (objects ?s')"
      using r consistentD(2) [OF c, of p ref] by (auto split: if_splits)
    show "distinct (map fst (users (objects ?s' ! ref)))"
      using r consistentD(2) [OF c, of p ref] consistentD(3) [OF c, of p ref]
      by (auto simp: nth_append split: if_splits)
    show "set (map fst (users (objects ?s' ! ref))) = connected_users ?s' p"
      using r consistentD(2) [OF c, of p ref] consistentD(4) [OF c, of p ref] nobody
      by (auto simp: nth_append cu simp del: set_map split: if_splits)
    fix kv
    assume "kv \<in> set (users (objects ?s' ! ref))"
    then show "userId (snd kv) = fst kv"
      using r consistentD(2) [OF c, of p ref] consistentD(5) [OF c, of p ref kv]
      by (auto simp: nth_append split: if_splits)
  next
    fix p p' ref
    assume "rooms ?s' p = Some ref" "rooms ?s' p' = Some ref"
    then show "p = p'"
      using consistentD(6) [OF c, of p ref p'] consistentD(2) [OF c, of p ref]
        consistentD(2) [OF c, of p' ref]
      by (auto split: if_splits)
  next
    fix sid sid' cl cl'
    assume "handlers ?s' sid = Some cl" "handlers ?s' sid' = Some cl'"
      "c_projectId cl = c_projectId cl'" "c_userId cl = c_userId cl'"
    then show "sid = sid'" using consistentD(7) [OF c, of sid cl sid' cl'] by simp
  qed
qed

lemma consistent_join:
  assumes c: "consistent s" and fresh: "handlers s sid = None"
    and r: "rooms s pid = Some ref" and new: "uid \<notin> connected_users s pid"
    and id: "userId u = uid"
  shows "consistent (s\<lparr>objects := (objects s)[ref := (objects s ! ref)
                          \<lparr>users := AList.update uid u (users (objects s ! ref))\<rparr>],
                        handlers := (handlers s)(sid \<mapsto>
                          \<lparr>c_projectId = pid, c_userId = uid, c_room = ref\<rparr>)\<rparr>)"
proof -
  let ?cl = "\<lparr>c_projectId = pid, c_userId = uid, c_room = ref\<rparr>"
  let ?r' = "(objects s ! ref)\<lparr>users := AList.update uid u (users (objects s ! ref))\<rparr>"
  let ?s' = "s\<lparr>objects := (objects s)[ref := ?r'], handlers := (handlers s)(sid \<mapsto> ?cl)\<rparr>"
  have cu: "connected_users ?s' p =
      (if pid = p then insert uid (connected_users s p) else connected_users s p)" for p
    using connected_users_add [OF fresh, of ?s' ?cl p] by simp
  have nth: "(objects s)[ref := ?r'] ! ref' = (if ref' = ref then ?r' else objects s ! ref')"
    if "rooms s p = Some ref'" for p ref'
    using consistentD(2) [OF c that] by simp
  have same: "p = pid \<longleftrightarrow> ref' = ref" if "rooms s p = Some ref'" for p ref'
    using consistentD(6) [OF c, of p ref pid] that r by auto
  have h: "handlers ?s' x = (if x = sid then Some ?cl else handlers s x)" for x
    by simp
  have lt: "ref < length (objects s)"
    using consistentD(2) [OF c r] .
  show ?thesis
  proof (rule consistentI)
    fix x cl
    assume "handlers ?s' x = Some cl"
    then show "rooms ?s' (c_projectId cl) = Some (c_room cl)"
      using consistentD(1) [OF c, of x cl] r by (auto simp: h split: if_splits)
  next
    fix p ref'
    assume "rooms ?s' p = Some ref'"
    then have r0: "rooms s p = Some ref'" by simp
    show "ref' < length (objects ?s')"
      using consistentD(2) [OF c r0] by simp
    show "distinct (map fst (users (objects ?s' ! ref')))"
      using consistentD(3) [OF c r0] by (auto simp: nth [OF r0] distinct_update)
    show "set (map fst (users (objects ?s' ! ref'))) = connected_users ?s' p"
    proof (cases "ref' = ref")
      case True
      then have "p = pid" using same [OF r0] by simp
      then show ?thesis
        using consistentD(4) [OF c r] True lt
        by (simp add: cu set_update_keys del: set_map)
    next
      case False
      then have "p \<noteq> pid" using same [OF r0] by simp
      then show ?thesis
        using consistentD(4) [OF c r0] False
        by (simp add: nth [OF r0] cu del: set_map)
    qed
    fix kv
    assume kv: "kv \<in> set (users (objects ?s' ! ref'))"
    show "userId (snd kv) = fst kv"
    proof (cases "ref' = ref")
      case True
      have "kv \<in> set (AList.update uid u (users (objects s ! ref)))"
        using kv True lt by simp
      moreover have "\<forall>kv \<in> set (users (objects s ! ref)). userId (snd kv) = fst kv"
        using consistentD(5) [OF c r] by blast
      moreover have "userId (snd (uid, u)) = fst (uid, u)" using id by simp
      ultimately show ?thesis
        using update_pairs [where P = "\<lambda>kv. userId (snd kv) = fst kv" and k = uid and v = u
            and al = "users (objects s ! ref)" and kv = kv]
        by blast
    next
      case False
      then show ?thesis
        using kv consistentD(5) [OF c r0, of kv] by (simp add: nth [OF r0])
    qed
  next
    fix p p' ref'
    assume "rooms ?s' p = Some ref'" "rooms ?s' p' = Some ref'"
    then show "p = p'" using consistentD(6) [OF c, of p ref' p'] by simp
  next
    fix x y cl cl'
    assume a: "handlers ?s' x = Some cl" "handlers ?s' y = Some cl'"
      "c_projectId cl = c_projectId cl'" "c_userId cl = c_userId cl'"
    have clash: False if "handlers s z = Some d" "c_projectId d = pid" "c_userId d = uid" for z d
      using that new unfolding connected_users_def by blast
    show "x = y"
    proof (cases "x = sid"; cases "y = sid")
      assume "x = sid" "y \<noteq> sid"
      then show ?thesis using a clash [of y cl'] by (auto simp: h)
    next
      assume "x \<noteq> sid" "y = sid"
      then show ?thesis using a clash [of x cl] by (auto simp: h)
    next
      assume "x \<noteq> sid" "y \<noteq> sid"
      then show ?thesis using a consistentD(7) [OF c, of x cl y cl'] by (simp add: h)
    qed simp
  qed
qed

lemma consistent_leave:
  assumes c: "consistent s" and h: "handlers s sid = Some cl"
  shows "consistent (s\<lparr>objects := (objects s)[c_room cl := (objects s ! c_room cl)
                          \<lparr>users := AList.delete (c_userId cl) (users (objects s ! c_room cl))\<rparr>],
                        rooms := (if AList.delete (c_userId cl) (users (objects s ! c_room cl)) = []
                                  then (rooms s)(c_projectId cl := None) else rooms s),
                        handlers := (handlers s)(sid := None)\<rparr>)"
proof -
  let ?pid = "c_projectId cl" and ?uid = "c_userId cl" and ?ref = "c_room cl"
  let ?us = "AList.delete ?uid (users (objects s ! ?ref))"
  let ?r' = "(objects s ! ?ref)\<lparr>users := ?us\<rparr>"
  let ?rooms' = "if ?us = [] then (rooms s)(?pid := None) else rooms s"
  let ?s' = "s\<lparr>objects := (objects s)[?ref := ?r'], rooms := ?rooms',
                handlers := (handlers s)(sid := None)\<rparr>"
  have r: "rooms s ?pid = Some ?ref" using consistentD(1) [OF c h] .
  have lt: "?ref < length (objects s)" using consistentD(2) [OF c r] .
  have cu: "connected_users ?s' p =
      (if ?pid = p then connected_users s p - {?uid} else connected_users s p)" for p
    using connected_users_remove [OF c h, of ?s' p] by simp
  have sub: "rooms s p = Some ref'" if "?rooms' p = Some ref'" for p ref'
    using that by (auto split: if_splits)
  have same: "p = ?pid \<longleftrightarrow> ref' = ?ref" if "rooms s p = Some ref'" for p ref'
    using consistentD(6) [OF c, of p ?ref ?pid] that r by auto
  have nth: "(objects s)[?ref := ?r'] ! ref' = (if ref' = ?ref then ?r' else objects s ! ref')"
    if "rooms s p = Some ref'" for p ref'
    using consistentD(2) [OF c that] by simp
  have hs: "handlers ?s' x = (if x = sid then None else handlers s x)" for x
    by simp
  have keys: "set (map fst ?us) = connected_users s ?pid - {?uid}"
    using consistentD(4) [OF c r] by (simp add: set_delete_keys del: set_map)
  show ?thesis
  proof (rule consistentI)
    fix x d
    assume "handlers ?s' x = Some d"
    then have ne: "x \<noteq> sid" and hx: "handlers s x = Some d"
      by (auto simp: hs split: if_splits)
    have rd: "rooms s (c_projectId d) = Some (c_room d)"
      using consistentD(1) [OF c hx] .
    have "c_projectId d \<noteq> ?pid" if empty: "?us = []"
    proof
      assume same_room: "c_projectId d = ?pid"
      then have "c_userId d \<in> connected_users s ?pid"
        using hx unfolding connected_users_def by blast
      then have "c_userId d = ?uid" using keys empty by auto
      then have "x = sid" using consistentD(7) [OF c hx h] same_room by simp
      with ne show False by simp
    qed
    then show "rooms ?s' (c_projectId d) = Some (c_room d)"
      using rd by auto
  next
    fix p ref'
    assume a: "rooms ?s' p = Some ref'"
    then have r0: "rooms s p = Some ref'" using sub [of p ref'] by simp
    show "ref' < length (objects ?s')"
      using consistentD(2) [OF c r0] by simp
    show "distinct (map fst (users (objects ?s' ! ref')))"
      using consistentD(3) [OF c r0] consistentD(3) [OF c r] lt
      by (cases "ref' = ?ref") (simp_all add: distinct_delete)
    show "set (map fst (users (objects ?s' ! ref'))) = connected_users ?s' p"
    proof (cases "ref' = ?ref")
      case True
      then have "p = ?pid" using same [OF r0] by simp
      then show ?thesis
        using keys True lt by (simp add: cu del: set_map)
    next
      case False
      then have "p \<noteq> ?pid" using same [OF r0] by simp
      then show ?thesis
        using consistentD(4) [OF c r0] False by (simp add: cu del: set_map)
    qed
    fix kv
    assume kv: "kv \<in> set (users (objects ?s' ! ref'))"
    show "userId (snd kv) = fst kv"
    proof (cases "ref' = ?ref")
      case True
      then have "kv \<in> set ?us" using kv lt by simp
      then have "kv \<in> set (users (objects s ! ?ref))" by (rule delete_pairs)
      then show ?thesis using consistentD(5) [OF c r] by blast
    next
      case False
      then show ?thesis using kv consistentD(5) [OF c r0, of kv] by simp
    qed
  next
    fix p p' ref'
    assume "rooms ?s' p = Some ref'" "rooms ?s' p' = Some ref'"
    then have "rooms s p = Some ref'" "rooms s p' = Some ref'"
      using sub [of p ref'] sub [of p' ref'] by simp_all
    then show "p = p'" by (rule consistentD(6) [OF c])
  next
    fix x y d d'
    assume "handlers ?s' x = Some d" "handlers ?s' y = Some d'"
      and eq: "c_projectId d = c_projectId d'" "c_userId d = c_userId d'"
    then have "handlers s x = Some d" "handlers s y = Some d'"
      by (auto simp: hs split: if_splits)
    then show "x = y" using eq by (rule consistentD(7) [OF c])
  qed
qed

lemma consistent_connection:
  assumes c: "consistent s" and fresh: "handlers s sid = None"
    and single: "single_connection s (Connect sid q)"
  shows "consistent (state (connection JSON_parse now sid q s))"
proof (cases rule: connection_cases [of q JSON_parse now sid s])
  case rejected
  with c show ?thesis by simp
next
  case (unparsed pid uid prof)
  have "state (connection JSON_parse now sid q s) =
      (if rooms s pid = None
       then s\<lparr>objects := objects s @ [\<lparr>users = [], content = []\<rparr>],
              rooms := (rooms s)(pid \<mapsto> length (objects s))\<rparr>
       else s)\<lparr>adapter := List.insert (sid, pid) (adapter s)\<rparr>"
    using unparsed(1-7) by (cases "rooms s pid"; simp add: connection_def Let_def)
  then have "consistent (state (connection JSON_parse now sid q s)) =
      consistent (if rooms s pid = None
       then s\<lparr>objects := objects s @ [\<lparr>users = [], content = []\<rparr>],
              rooms := (rooms s)(pid \<mapsto> length (objects s))\<rparr>
       else s)"
    by simp
  then show ?thesis
    using c consistent_room_created [OF c, of pid] by simp
next
  case (joined pid uid prof p)
  have new: "uid \<notin> connected_users s pid"
    using single joined(1,2) by (simp add: single_connection_def)
  let ?u = "joined_user uid p now"
  have id: "userId ?u = uid" by (simp add: joined_user_def)
  show ?thesis
  proof (cases "rooms s pid")
    case (Some ref)
    let ?s0 = "s\<lparr>adapter := List.insert (sid, pid) (adapter s)\<rparr>"
    have c0: "consistent ?s0" using c by simp
    have new0: "uid \<notin> connected_users ?s0 pid"
      using new by (simp add: connected_users_def)
    have "consistent (?s0\<lparr>objects := (objects ?s0)[ref := (objects ?s0 ! ref)
              \<lparr>users := AList.update uid ?u (users (objects ?s0 ! ref))\<rparr>],
            handlers := (handlers ?s0)(sid \<mapsto>
              \<lparr>c_projectId = pid, c_userId = uid, c_room = ref\<rparr>)\<rparr>)"
      by (rule consistent_join [OF c0 _ _ new0 id]) (simp_all add: fresh Some)
    moreover have "consistent (state (connection JSON_parse now sid q s)) =
        consistent (?s0\<lparr>objects := (objects ?s0)[ref := (objects ?s0 ! ref)
              \<lparr>users := AList.update uid ?u (users (objects ?s0 ! ref))\<rparr>],
            handlers := (handlers ?s0)(sid \<mapsto>
              \<lparr>c_projectId = pid, c_userId = uid, c_room = ref\<rparr>)\<rparr>)"
      by (rule consistent_fields)
        (simp_all add: connection_accepted(1) [where JSON_parse = JSON_parse and prof = prof,
            OF joined Some])
    ultimately show ?thesis by simp
  next
    case None
    let ?s1 = "s\<lparr>objects := objects s @ [\<lparr>users = [], content = []\<rparr>],
                  rooms := (rooms s)(pid \<mapsto> length (objects s)),
                  adapter := List.insert (sid, pid) (adapter s)\<rparr>"
    have c1: "consistent ?s1"
      using consistent_room_created [OF c None] by simp
    have new1: "uid \<notin> connected_users ?s1 pid"
      using new by (simp add: connected_users_def)
    have "consistent (?s1\<lparr>objects := (objects ?s1)[length (objects s) :=
              (objects ?s1 ! length (objects s))
              \<lparr>users := AList.update uid ?u (users (objects ?s1 ! length (objects s)))\<rparr>],
            handlers := (handlers ?s1)(sid \<mapsto>
              \<lparr>c_projectId = pid, c_userId = uid, c_room = length (objects s)\<rparr>)\<rparr>)"
      by (rule consistent_join [OF c1 _ _ new1 id]) (simp_all add: fresh)
    moreover have "consistent (state (connection JSON_parse now sid q s)) =
        consistent (?s1\<lparr>objects := (objects ?s1)[length (objects s) :=
              (objects ?s1 ! length (objects s))
              \<lparr>users := AList.update uid ?u (users (objects ?s1 ! length (objects s)))\<rparr>],
            handlers := (handlers ?s1)(sid \<mapsto>
              \<lparr>c_projectId = pid, c_userId = uid, c_room = length (objects s)\<rparr>)\<rparr>)"
      by (rule consistent_fields)
        (simp_all add: connection_accepted(2) [where JSON_parse = JSON_parse and prof = prof,
            OF joined None])
    ultimately show ?thesis by simp
  qed
qed

lemma consistent_on_cursor:
  assumes c: "consistent s"
  shows "consistent (state (on_cursor now sid payload s))"
proof (cases rule: on_cursor_cases [of now sid payload s])
  case silent
  with c show ?thesis by simp
next
  case (moved cl upd user)
  let ?uid = "c_userId cl" and ?us = "users (objects s ! c_room cl)"
  let ?user' = "user\<lparr>cursor := cu_position upd, selection := cu_selection upd,
      lastActive := now\<rparr>"
  have r: "rooms s (c_projectId cl) = Some (c_room cl)"
    using consistentD(1) [OF c moved(1)] .
  have mem: "(?uid, user) \<in> set ?us" using moved(3) by (rule map_of_SomeD)
  then have key: "?uid \<in> set (map fst ?us)" by force
  have id: "userId user = ?uid" using consistentD(5) [OF c r mem] by simp
  have "consistent (s\<lparr>objects := (objects s)[c_room cl := (objects s ! c_room cl)
      \<lparr>users := AList.update ?uid ?user' ?us\<rparr>]\<rparr>)"
  proof (rule consistent_update_room [OF c])
    show "map fst (users ((objects s ! c_room cl)\<lparr>users := AList.update ?uid ?user' ?us\<rparr>)) =
        map fst ?us"
      using key by (simp add: update_keys)
    fix p kv
    assume "kv \<in> set (users ((objects s ! c_room cl)\<lparr>users := AList.update ?uid ?user' ?us\<rparr>))"
    then have "kv \<in> set (AList.update ?uid ?user' ?us)" by simp
    moreover have "\<forall>kv \<in> set ?us. userId (snd kv) = fst kv"
      using consistentD(5) [OF c r] by blast
    moreover have "userId (snd (?uid, ?user')) = fst (?uid, ?user')" using id by simp
    ultimately show "userId (snd kv) = fst kv"
      using update_pairs [where P = "\<lambda>kv. userId (snd kv) = fst kv" and k = ?uid
          and v = ?user' and al = ?us and kv = kv]
      by blast
  qed
  then show ?thesis by (simp add: moved(4))
qed

lemma on_change_state:
  "state (on_change sid payload s) = s \<or>
   (\<exists>cl c. handlers s sid = Some cl \<and>
      state (on_change sid payload s) =
        s\<lparr>objects := (objects s)[c_room cl := (objects s ! c_room cl)\<lparr>content := c\<rparr>]\<rparr>)"
  by (auto simp: on_change_def quiet_def Let_def split: option.splits jsval.splits sum.splits)

lemma consistent_on_change:
  assumes c: "consistent s"
  shows "consistent (state (on_change sid payload s))"
  using on_change_state [of sid payload s]
proof
  assume "state (on_change sid payload s) = s"
  with c show ?thesis by simp
next
  assume "\<exists>cl c. handlers s sid = Some cl \<and>
      state (on_change sid payload s) =
        s\<lparr>objects := (objects s)[c_room cl := (objects s ! c_room cl)\<lparr>content := c\<rparr>]\<rparr>"
  then obtain cl c' where "handlers s sid = Some cl" and eq: "state (on_change sid payload s) =
        s\<lparr>objects := (objects s)[c_room cl := (objects s ! c_room cl)\<lparr>content := c'\<rparr>]\<rparr>"
    by (elim exE conjE)
  show ?thesis
    unfolding eq
  proof (rule consistent_update_room [OF c])
    show "map fst (users ((objects s ! c_room cl)\<lparr>content := c'\<rparr>)) =
        map fst (users (objects s ! c_room cl))"
      by simp
    fix p kv
    assume "rooms s p = Some (c_room cl)"
      and "kv \<in> set (users ((objects s ! c_room cl)\<lparr>content := c'\<rparr>))"
    then show "userId (snd kv) = fst kv"
      using consistentD(5) [OF c, of p "c_room cl" kv] by simp
  qed
qed

lemma consistent_on_disconnect:
  assumes c: "consistent s"
  shows "consistent (state (on_disconnect sid s))"
proof (cases "handlers s sid")
  case None
  then show ?thesis using c by (simp add: on_disconnect_def quiet_def)
next
  case (Some cl)
  have "consistent (state (on_disconnect sid s)) =
      consistent (s\<lparr>objects := (objects s)[c_room cl := (objects s ! c_room cl)
          \<lparr>users := AList.delete (c_userId cl) (users (objects s ! c_room cl))\<rparr>],
       rooms := (if AList.delete (c_userId cl) (users (objects s ! c_room cl)) = []
                 then (rooms s)(c_projectId cl := None) else rooms s),
       handlers := (handlers s)(sid := None)\<rparr>)"
    by (rule consistent_fields) (simp_all add: on_disconnect_attached [OF Some])
  then show ?thesis using consistent_leave [OF c Some] by simp
qed

lemma consistent_step:
  assumes "consistent s" and "fresh_socket s ev" and "single_connection s ev"
  shows "consistent (state (step JSON_parse now ev s))"
  using assms
  by (cases ev)
    (simp_all add: fresh_socket_def consistent_connection consistent_on_cursor
      consistent_on_change consistent_on_disconnect)

lemma presence_of_registered:
  assumes c: "consistent s" and r: "rooms s p = Some ref"
    and em: "to_room em = p" "message em = Presence (map snd (users (objects s ! ref)))"
  shows "presence_complete s em"
proof -
  have "map userId (map snd (users (objects s ! ref))) = map fst (users (objects s ! ref))"
    using consistentD(5) [OF c r] by simp
  then show ?thesis
    using consistentD(3) [OF c r] consistentD(4) [OF c r] r em
    by (simp add: presence_complete_def del: set_map map_map)
qed

lemma presence_of_unregistered:
  assumes c: "consistent s" and r: "rooms s p = None"
    and em: "to_room em = p" "message em = Presence []"
  shows "presence_complete s em"
proof -
  have "connected_users s p = {}"
    using consistentD(1) [OF c] r by (fastforce simp: connected_users_def)
  then show ?thesis using r em by (simp add: presence_complete_def)
qed

lemma presence_connection:
  assumes c: "consistent s" and fresh: "handlers s sid = None"
    and single: "single_connection s (Connect sid q)"
    and em: "em \<in> set (emitted (connection JSON_parse now sid q s))"
  shows "presence_complete (state (connection JSON_parse now sid q s)) em"
proof (cases rule: connection_cases [of q JSON_parse now sid s])
  case rejected
  with em show ?thesis by simp
next
  case (unparsed pid uid prof)
  with em show ?thesis by simp
next
  case (joined pid uid prof p)
  have c': "consistent (state (connection JSON_parse now sid q s))"
    using c fresh single by (rule consistent_connection)
  show ?thesis
  proof (cases "rooms s pid")
    case (Some ref)
    note eq = connection_accepted(1) [where JSON_parse = JSON_parse and prof = prof,
        OF joined Some, of now sid]
    have lt: "ref < length (objects s)" using consistentD(2) [OF c Some] .
    show ?thesis
      by (rule presence_of_registered [OF c', of pid ref]) (use em lt Some in \<open>auto simp: eq\<close>)
  next
    case None
    note eq = connection_accepted(2) [where JSON_parse = JSON_parse and prof = prof,
        OF joined None, of now sid]
    show ?thesis
      by (rule presence_of_registered [OF c', of pid "length (objects s)"])
        (use em in \<open>auto simp: eq\<close>)
  qed
qed

lemma presence_on_cursor:
  assumes c: "consistent s"
    and em: "em \<in> set (emitted (on_cursor now sid payload s))"
  shows "presence_complete (state (on_cursor now sid payload s)) em"
proof (cases rule: on_cursor_cases [of now sid payload s])
  case silent
  with em show ?thesis by simp
next
  case (moved cl upd user)
  have c': "consistent (state (on_cursor now sid payload s))"
    using c by (rule consistent_on_cursor)
  have r: "rooms s (c_projectId cl) = Some (c_room cl)"
    using consistentD(1) [OF c moved(1)] .
  have lt: "c_room cl < length (objects s)" using consistentD(2) [OF c r] .
  show ?thesis
    by (rule presence_of_registered [OF c', of "c_projectId cl" "c_room cl"])
      (use em lt r in \<open>auto simp: moved(4)\<close>)
qed

lemma presence_on_change:
  assumes em: "em \<in> set (emitted (on_change sid payload s))"
  shows "presence_complete s' em"
proof -
  have "message em = ChangeMsg payload"
    using em
    by (auto simp: on_change_def quiet_def Let_def socket_to_emit_def
        split: option.splits jsval.splits sum.splits)
  then show ?thesis by (simp add: presence_complete_def)
qed

lemma presence_on_disconnect:
  assumes c: "consistent s"
    and em: "em \<in> set (emitted (on_disconnect sid s))"
  shows "presence_complete (state (on_disconnect sid s)) em"
proof (cases "handlers s sid")
  case None
  with em show ?thesis by (simp add: on_disconnect_def quiet_def)
next
  case (Some cl)
  note eq = on_disconnect_attached [OF Some]
  have c': "consistent (state (on_disconnect sid s))"
    using c by (rule consistent_on_disconnect)
  have r: "rooms s (c_projectId cl) = Some (c_room cl)"
    using consistentD(1) [OF c Some] .
  have lt: "c_room cl < length (objects s)" using consistentD(2) [OF c r] .
  show ?thesis
  proof (cases "AList.delete (c_userId cl) (users (objects s ! c_room cl)) = []")
    case True
    show ?thesis
      by (rule presence_of_unregistered [OF c', of "c_projectId cl"])
        (use em True in \<open>auto simp: eq\<close>)
  next
    case False
    show ?thesis
      by (rule presence_of_registered [OF c', of "c_projectId cl" "c_room cl"])
        (use em False lt r in \<open>auto simp: eq\<close>)
  qed
qed

section \<open>The queue is drained in order\<close>

lemma started_append [simp]: "started (t @ u) = started t @ started u"
  by (induction t rule: started.induct) auto

lemma finished_append [simp]: "finished (t @ u) = finished t @ finished u"
  by (induction t rule: finished.induct) auto

lemma failed_append [simp]: "failed (t @ u) = failed t @ failed u"
  by (induction t rule: failed.induct) auto

lemma settled_append [simp]: "settled (t @ u) = settled t @ settled u"
  by (induction t rule: settled.induct) auto

lemma in_progress_append [simp]:
  "in_progress cur (t @ u) = in_progress (in_progress cur t) u"
  by (induction cur t rule: in_progress.induct) auto

lemma sequential_from_append [simp]:
  "sequential_from cur (t @ u) =
     (sequential_from cur t \<and> sequential_from (in_progress cur t) u)"
  by (induction cur t rule: sequential_from.induct) auto

lemma finished_settled: "failed t = [] \<Longrightarrow> finished t = settled t"
  by (induction t rule: settled.induct) auto

lemma enqueued_snoc [simp]:
  "enqueued (evs @ [ev]) =
     enqueued evs @ (case ev of ProcessOperation operation \<Rightarrow> [operation] | _ \<Rightarrow> [])"
  by (induction evs rule: enqueued.induct) (auto split: QueueEvent.splits)

lemma enqueued_append: "enqueued (evs @ evs') = enqueued evs @ enqueued evs'"
  by (induction evs rule: enqueued.induct) auto

lemma enqueued_resolved [simp]: "enqueued (evs @ replicate n Resolved) = enqueued evs"
  by (induction n) (simp_all add: enqueued_append)

lemma fs_run_snoc [simp]: "fs_run (evs @ [ev]) s = fs_step ev (fs_run evs s)"
  by (simp add: fs_run_def)

lemma fs_run_append: "fs_run (evs @ evs') s = fs_run evs' (fs_run evs s)"
  by (simp add: fs_run_def)

lemma fs_run_Cons [simp]: "fs_run (ev # evs) s = fs_run evs (fs_step ev s)"
  by (simp add: fs_run_def)

lemma fs_run_Nil [simp]: "fs_run [] s = s"
  by (simp add: fs_run_def)

lemma queue_inv_init: "queue_inv [] fs_init"
  by (simp add: queue_inv_def fs_init_def applying_def)

lemma queue_inv_watch:
  assumes "queue_inv evs s"
  shows "queue_inv (evs @ [WatchFile p callback]) (watchFile p callback s)"
    and "queue_inv (evs @ [Unwatch p callback]) (unwatch p callback s)"
  using assms
  by (simp_all add: queue_inv_def watchFile_def unwatch_def applying_def)

lemma queue_inv_rejected:
  assumes "queue_inv evs s"
  shows "queue_inv (evs @ [Rejected]) (rejected s)"
proof (cases "awaiting s")
  case None
  then show ?thesis using assms by (simp add: queue_inv_def rejected_def applying_def)
next
  case (Some oa)
  obtain operation a where oa: "oa = (operation, a)" by (cases oa)
  show ?thesis
    using assms Some oa
    by (cases a) (auto simp: queue_inv_def rejected_def applying_def)
qed

text \<open>The head of the loop, from a state in which no operation is being applied.\<close>

lemma queue_inv_drain:
  assumes q: "started (trace s) @ operationQueue s = enqueued evs"
    and sq: "sequential_from None (trace s)"
    and ip: "in_progress None (trace s) = None"
    and st: "settled (trace s) = started (trace s)"
    and aw: "awaiting s = None" and fl: "isProcessing s"
  shows "queue_inv evs (drain s)"
proof (cases "operationQueue s")
  case Nil
  then show ?thesis
    using assms by (simp add: queue_inv_def drain_def applying_def)
next
  case (Cons operation rest)
  let ?s1 = "s\<lparr>operationQueue := rest, trace := trace s @ [Started operation]\<rparr>"
  have d: "drain s = applyOperation operation ?s1"
    using Cons by (simp add: drain_def)
  show ?thesis
  proof (cases "op_type operation")
    case Create
    then show ?thesis
      using assms Cons
      by (simp add: d queue_inv_def applyOperation_def applying_def)
  next
    case Update
    then show ?thesis
      using assms Cons
      by (simp add: d queue_inv_def applyOperation_def applying_def)
  next
    case Delete
    then show ?thesis
      using assms Cons
      by (simp add: d queue_inv_def applyOperation_def applying_def)
  next
    case Move
    then show ?thesis
      using assms Cons
      by (auto simp: d queue_inv_def applyOperation_def applying_def)
  next
    case Rename
    then show ?thesis
      using assms Cons
      by (auto simp: d queue_inv_def applyOperation_def complete_def applying_def)
  qed
qed

lemma queue_inv_processOperation:
  assumes "queue_inv evs s"
  shows "queue_inv (evs @ [ProcessOperation operation]) (processOperation operation s)"
proof (cases "isProcessing s")
  case True
  then show ?thesis
    using assms
    by (auto simp: queue_inv_def processOperation_def Let_def applying_def)
next
  case False
  then have e: "operationQueue s = []" "awaiting s = None"
    using assms by (simp_all add: queue_inv_def)
  have "queue_inv (evs @ [ProcessOperation operation])
      (drain (s\<lparr>operationQueue := operationQueue s @ [operation], isProcessing := True\<rparr>))"
    using assms e by (intro queue_inv_drain) (simp_all add: queue_inv_def applying_def)
  then show ?thesis
    using False by (simp add: processOperation_def Let_def)
qed

lemma queue_inv_complete:
  assumes inv: "queue_inv evs s" and aw: "awaiting s = Some (operation, a)"
    and a: "a = Upsert \<or> a = DeleteRow \<or> a = InsertRow"
  shows "queue_inv (evs @ [Resolved]) (complete operation (s\<lparr>fileCache := cache\<rparr>))"
  using assms
  by (auto simp: queue_inv_def complete_def applying_def notifyWatchers_def)

lemma queue_inv_resolved:
  assumes inv: "queue_inv evs s"
  shows "queue_inv (evs @ [Resolved]) (resolved s)"
proof (cases "awaiting s")
  case None
  then show ?thesis using inv by (simp add: queue_inv_def resolved_def applying_def)
next
  case (Some oa)
  obtain operation a where oa: "oa = (operation, a)" by (cases oa)
  note aw = Some [unfolded oa]
  show ?thesis
  proof (cases a)
    case Upsert
    have "queue_inv (evs @ [Resolved]) (complete operation
        (s\<lparr>fileCache := (fileCache s)(node_path (op_file operation) \<mapsto> op_file operation)\<rparr>))"
      using inv aw Upsert
      by (intro queue_inv_complete [where a = a]) simp_all
    then show ?thesis using aw Upsert by (simp add: resolved_def)
  next
    case DeleteRow
    have "queue_inv (evs @ [Resolved]) (complete operation
        (s\<lparr>fileCache := (fileCache s)(node_path (op_file operation) := None)\<rparr>))"
      using inv aw DeleteRow
      by (intro queue_inv_complete [where a = a]) simp_all
    then show ?thesis using aw DeleteRow by (simp add: resolved_def)
  next
    case DeletePrevious
    then show ?thesis
      using inv aw
      by (auto simp: queue_inv_def resolved_def applying_def)
  next
    case InsertRow
    have "queue_inv (evs @ [Resolved]) (complete operation
        (s\<lparr>fileCache := (fileCache s)(node_path (op_file operation) \<mapsto> op_file operation)\<rparr>))"
      using inv aw InsertRow
      by (intro queue_inv_complete [where a = a]) simp_all
    then show ?thesis using aw InsertRow by (simp add: resolved_def)
  next
    case Return
    have "queue_inv (evs @ [Resolved]) (drain (s\<lparr>awaiting := None\<rparr>))"
      using inv aw Return
      by (intro queue_inv_drain) (auto simp: queue_inv_def applying_def)
    then show ?thesis using aw Return by (simp add: resolved_def)
  qed
qed

lemma queue_inv_step:
  assumes "queue_inv evs s"
  shows "queue_inv (evs @ [ev]) (fs_step ev s)"
  using assms
  by (cases ev)
    (simp_all add: queue_inv_processOperation queue_inv_resolved queue_inv_rejected
      queue_inv_watch)

lemma queue_inv_run: "queue_inv evs (fs_run evs fs_init)"
proof (induction evs rule: rev_induct)
  case Nil
  show ?case by (simp add: queue_inv_init)
next
  case (snoc ev evs)
  then show ?case by (simp add: queue_inv_step)
qed

text \<open>
  Progress: when no operation has failed and no watcher throws, each resolution takes
  the loop one step towards the end of the queue.
\<close>

lemma awaits_pos: "0 < awaits operation"
  by (simp add: awaits_def split: OperationType.splits)

lemma needed_0:
  assumes "needed s = 0"
  shows "awaiting s = None" and "operationQueue s = []"
proof -
  show "awaiting s = None"
    using assms by (auto simp: needed_def split: option.splits Await.splits)
  have "sum_list (map awaits (operationQueue s)) = 0"
    using assms by (simp add: needed_def)
  then show "operationQueue s = []"
    using awaits_pos by (cases "operationQueue s") (auto simp: neq0_conv [symmetric] simp del: neq0_conv)
qed

lemma notifyWatchers_cong:
  "fileWatchers s' = fileWatchers s \<Longrightarrow> notifyWatchers file s' = notifyWatchers file s"
  by (simp add: notifyWatchers_def)

lemma resolved_progress:
  assumes inv: "queue_inv evs s" and ok: "failed (trace s) = []" and calm: "calm s"
    and n: "needed s = Suc n"
  shows "failed (trace (resolved s)) = [] \<and> calm (resolved s) \<and> needed (resolved s) = n"
proof (cases "awaiting s")
  case None
  then have "\<not> isProcessing s" using inv ok by (simp add: queue_inv_def)
  then have "operationQueue s = []" using inv by (auto simp: queue_inv_def)
  then show ?thesis using n None by (simp add: needed_def)
next
  case (Some oa)
  obtain operation a where oa: "oa = (operation, a)" by (cases oa)
  note aw = Some [unfolded oa]
  have w: "notifyWatchers (op_file operation) s"
    using calm aw by (simp add: calm_def)
  have q: "list_all (\<lambda>operation. notifyWatchers (op_file operation) s) (operationQueue s)"
    using calm by (simp add: calm_def)
  show ?thesis
  proof (cases a)
    case Upsert
    then show ?thesis
      using aw w q n ok
      by (simp add: resolved_def complete_def needed_def calm_def notifyWatchers_def)
  next
    case DeleteRow
    then show ?thesis
      using aw w q n ok
      by (simp add: resolved_def complete_def needed_def calm_def notifyWatchers_def)
  next
    case DeletePrevious
    then show ?thesis
      using aw w q n ok
      by (simp add: resolved_def needed_def calm_def notifyWatchers_def)
  next
    case InsertRow
    then show ?thesis
      using aw w q n ok
      by (simp add: resolved_def complete_def needed_def calm_def notifyWatchers_def)
  next
    case Return
    show ?thesis
    proof (cases "operationQueue s")
      case Nil
      then show ?thesis
        using aw Return n ok
        by (simp add: resolved_def drain_def needed_def calm_def)
    next
      case (Cons next_op rest)
      then show ?thesis
        using aw Return q n ok
        by (cases "op_type next_op")
          (auto simp: resolved_def drain_def applyOperation_def complete_def needed_def
            calm_def notifyWatchers_def awaits_def split: if_splits)
    qed
  qed
qed

lemma drained:
  assumes "queue_inv evs s" and "failed (trace s) = []" and "calm s" and "needed s = n"
  shows "queue_inv (evs @ replicate n Resolved) (fs_run (replicate n Resolved) s) \<and>
         failed (trace (fs_run (replicate n Resolved) s)) = [] \<and>
         needed (fs_run (replicate n Resolved) s) = 0"
  using assms
proof (induction n arbitrary: evs s)
  case 0
  then show ?case by simp
next
  case (Suc n)
  note step = resolved_progress [OF Suc.prems(1-3) Suc.prems(4)]
  have inv: "queue_inv (evs @ [Resolved]) (resolved s)"
    using Suc.prems(1) by (rule queue_inv_resolved)
  have "queue_inv ((evs @ [Resolved]) @ replicate n Resolved)
      (fs_run (replicate n Resolved) (resolved s)) \<and>
    failed (trace (fs_run (replicate n Resolved) (resolved s))) = [] \<and>
    needed (fs_run (replicate n Resolved) (resolved s)) = 0"
    using inv step by (intro Suc.IH) simp_all
  then show ?case by simp
qed

lemma quiescent:
  assumes inv: "queue_inv evs s" and ok: "failed (trace s) = []" and n: "needed s = 0"
  shows "finished (trace s) = enqueued evs" and "operationQueue s = []"
    and "awaiting s = None" and "\<not> isProcessing s"
proof -
  note e = needed_0 [OF n]
  show "operationQueue s = []" "awaiting s = None" using e by simp_all
  show "\<not> isProcessing s" using inv ok e by (simp add: queue_inv_def)
  have "settled (trace s) = enqueued evs"
    using inv e by (simp add: queue_inv_def applying_def)
  then show "finished (trace s) = enqueued evs"
    using finished_settled [OF ok] by simp
qed

text \<open>When an operation finishes, its write is in the cache.\<close>

lemma finished_written:
  assumes inv: "queue_inv evs s"
    and fin: "trace (fs_step ev s) = trace s @ [Finished operation]"
  shows "written operation (fileCache (fs_step ev s))"
proof (cases ev)
  case (ProcessOperation new_op)
  show ?thesis
  proof (cases "isProcessing s")
    case True
    then show ?thesis using fin ProcessOperation by (simp add: processOperation_def Let_def)
  next
    case False
    then have "operationQueue s = []" using inv by (simp add: queue_inv_def)
    then show ?thesis
      using fin ProcessOperation False
      by (cases "op_type new_op")
        (auto simp: processOperation_def Let_def drain_def applyOperation_def complete_def
          split: if_splits)
  qed
next
  case Resolved
  show ?thesis
  proof (cases "awaiting s")
    case None
    then show ?thesis using fin Resolved by (simp add: resolved_def)
  next
    case (Some oa)
    obtain cur a where oa: "oa = (cur, a)" by (cases oa)
    note aw = Some [unfolded oa]
    have ty: "case a of
        Upsert \<Rightarrow> op_type cur = Create \<or> op_type cur = Update
      | DeleteRow \<Rightarrow> op_type cur = Delete
      | DeletePrevious \<Rightarrow> op_type cur = Move \<and> has_previousPath cur
      | InsertRow \<Rightarrow> op_type cur = Move
      | Return \<Rightarrow> True"
      using inv aw by (simp add: queue_inv_def)
    show ?thesis
    proof (cases a)
      case Upsert
      then show ?thesis
        using fin Resolved aw ty
        by (auto simp: resolved_def complete_def written_def split: if_splits)
    next
      case DeleteRow
      then show ?thesis
        using fin Resolved aw ty
        by (auto simp: resolved_def complete_def written_def split: if_splits)
    next
      case DeletePrevious
      then show ?thesis using fin Resolved aw by (simp add: resolved_def)
    next
      case InsertRow
      then show ?thesis
        using fin Resolved aw ty
        by (auto simp: resolved_def complete_def written_def split: if_splits)
    next
      case Return
      show ?thesis
      proof (cases "operationQueue s")
        case Nil
        then show ?thesis using fin Resolved aw Return by (simp add: resolved_def drain_def)
      next
        case (Cons next_op rest)
        then show ?thesis
          using fin Resolved aw Return
          by (cases "op_type next_op")
            (auto simp: resolved_def drain_def applyOperation_def complete_def
              split: if_splits)
      qed
    qed
  qed
next
  case Rejected
  then show ?thesis
    using fin by (auto simp: rejected_def split: option.splits if_splits)
next
  case (WatchFile p callback)
  then show ?thesis using fin by (simp add: watchFile_def)
next
  case (Unwatch p callback)
  then show ?thesis using fin by (simp add: unwatch_def)
qed

section \<open>Sound states\<close>

lemma soundD:
  assumes "sound s"
  shows "handlers s sid = Some cl \<Longrightarrow> c_room cl < length (objects s)"
    and "ref < length (objects s) \<Longrightarrow> k \<in> fst ` set (users (objects s ! ref)) \<Longrightarrow>
         \<exists>sid cl. handlers s sid = Some cl \<and> c_room cl = ref \<and> c_userId cl = k"
    and "handlers s sid = Some cl \<Longrightarrow> handlers s sid' = Some cl' \<Longrightarrow>
         c_room cl = c_room cl' \<Longrightarrow> c_projectId cl = c_projectId cl'"
    and "rooms s p = Some ref \<Longrightarrow> ref < length (objects s)"
    and "rooms s p = Some ref \<Longrightarrow> rooms s p' = Some ref \<Longrightarrow> p = p'"
    and "rooms s p = Some (c_room cl) \<Longrightarrow> handlers s sid = Some cl \<Longrightarrow> c_projectId cl = p"
proof -
  note a = assms [unfolded sound_def]
  note a1 = a [THEN conjunct1, rule_format]
  note a2 = a [THEN conjunct2, THEN conjunct1, rule_format]
  note a3 = a [THEN conjunct2, THEN conjunct2, THEN conjunct1, rule_format]
  note a4 = a [THEN conjunct2, THEN conjunct2, THEN conjunct2, THEN conjunct1, rule_format]
  note a5 = a [THEN conjunct2, THEN conjunct2, THEN conjunct2, THEN conjunct2, THEN conjunct1,
      rule_format]
  note a6 = a [THEN conjunct2, THEN conjunct2, THEN conjunct2, THEN conjunct2, THEN conjunct2,
      rule_format]
  show "handlers s sid = Some cl \<Longrightarrow> c_room cl < length (objects s)"
    by (rule a1)
  show "ref < length (objects s) \<Longrightarrow> k \<in> fst ` set (users (objects s ! ref)) \<Longrightarrow>
      \<exists>sid cl. handlers s sid = Some cl \<and> c_room cl = ref \<and> c_userId cl = k"
    using a2 [of ref k] by simp
  show "handlers s sid = Some cl \<Longrightarrow> handlers s sid' = Some cl' \<Longrightarrow>
      c_room cl = c_room cl' \<Longrightarrow> c_projectId cl = c_projectId cl'"
    using a3 [of sid cl sid' cl'] by simp
  show "rooms s p = Some ref \<Longrightarrow> ref < length (objects s)"
    by (rule a4)
  show "rooms s p = Some ref \<Longrightarrow> rooms s p' = Some ref \<Longrightarrow> p = p'"
    using a5 [of p ref p'] by simp
  show "rooms s p = Some (c_room cl) \<Longrightarrow> handlers s sid = Some cl \<Longrightarrow> c_projectId cl = p"
    using a6 [of p cl sid] by simp
qed

lemma soundI:
  assumes "\<And>sid cl. handlers s sid = Some cl \<Longrightarrow> c_room cl < length (objects s)"
    and "\<And>ref k. ref < length (objects s) \<Longrightarrow> k \<in> fst ` set (users (objects s ! ref)) \<Longrightarrow>
         \<exists>sid cl. handlers s sid = Some cl \<and> c_room cl = ref \<and> c_userId cl = k"
    and "\<And>sid cl sid' cl'. handlers s sid = Some cl \<Longrightarrow> handlers s sid' = Some cl' \<Longrightarrow>
         c_room cl = c_room cl' \<Longrightarrow> c_projectId cl = c_projectId cl'"
    and "\<And>p ref. rooms s p = Some ref \<Longrightarrow> ref < length (objects s)"
    and "\<And>p p' ref. rooms s p = Some ref \<Longrightarrow> rooms s p' = Some ref \<Longrightarrow> p = p'"
    and "\<And>p sid cl. rooms s p = Some (c_room cl) \<Longrightarrow> handlers s sid = Some cl \<Longrightarrow>
         c_projectId cl = p"
  shows "sound s"
  unfolding sound_def
proof (intro conjI allI impI, goal_cases)
  case (1 sid cl)
  then show ?case by (rule assms(1))
next
  case (2 ref k)
  then show ?case using assms(2) [of ref k] by simp
next
  case (3 sid cl sid' cl')
  then show ?case using assms(3) [of sid cl sid' cl'] by simp
next
  case (4 p ref)
  then show ?case by (rule assms(4))
next
  case (5 p p' ref)
  then show ?case using assms(5) [of p ref p'] by simp
next
  case (6 p sid cl)
  then show ?case using assms(6) [of p cl sid] by simp
qed

lemma sound_init: "sound init"
  by (simp add: sound_def init_def)

lemma sound_fields:
  assumes "objects s' = objects s" "rooms s' = rooms s" "handlers s' = handlers s"
  shows "sound s' = sound s"
  by (simp add: sound_def assms)

lemma sound_users:
  assumes c: "sound s"
    and o: "objects s' = (objects s)[ref := r']"
    and r: "rooms s' = rooms s" and h: "handlers s' = handlers s"
    and keys: "\<And>k. k \<in> fst ` set (users r') \<Longrightarrow>
        k \<in> fst ` set (users (objects s ! ref)) \<or>
        (\<exists>sid cl. handlers s sid = Some cl \<and> c_room cl = ref \<and> c_userId cl = k)"
  shows "sound s'"
proof (rule soundI)
  fix i k
  assume i: "i < length (objects s')" and k: "k \<in> fst ` set (users (objects s' ! i))"
  show "\<exists>sid cl. handlers s' sid = Some cl \<and> c_room cl = i \<and> c_userId cl = k"
  proof (cases "i = ref")
    case True
    then have "k \<in> fst ` set (users r')" using i k o by simp
    then show ?thesis
      using keys [of k] soundD(2) [OF c, of ref k] i o True h by auto
  next
    case False
    then show ?thesis using soundD(2) [OF c, of i k] i k o h by simp
  qed
next
  fix x cl assume "handlers s' x = Some cl"
  then show "c_room cl < length (objects s')"
    using soundD(1) [OF c, of x cl] h o by simp
next
  fix x cl x' cl'
  assume "handlers s' x = Some cl" "handlers s' x' = Some cl'" "c_room cl = c_room cl'"
  then show "c_projectId cl = c_projectId cl'"
    using soundD(3) [OF c, of x cl x' cl'] h by simp
next
  fix p i assume "rooms s' p = Some i"
  then show "i < length (objects s')" using soundD(4) [OF c, of p i] r o by simp
next
  fix p p' i assume "rooms s' p = Some i" "rooms s' p' = Some i"
  then show "p = p'" using soundD(5) [OF c, of p i p'] r by simp
next
  fix p x cl assume "rooms s' p = Some (c_room cl)" "handlers s' x = Some cl"
  then show "c_projectId cl = p" using soundD(6) [OF c, of p cl x] r h by simp
qed

lemma sound_attach:
  assumes c: "sound s" and fresh: "handlers s sid = None"
    and reg: "rooms s pid = Some ref"
    and o: "objects s' = (objects s)[ref := r']"
    and r: "rooms s' = rooms s"
    and h: "handlers s' = (handlers s)(sid \<mapsto> \<lparr>c_projectId = pid, c_userId = uid, c_room = ref\<rparr>)"
    and keys: "fst ` set (users r') \<subseteq> insert uid (fst ` set (users (objects s ! ref)))"
  shows "sound s'"
proof (rule soundI)
  let ?new = "\<lparr>c_projectId = pid, c_userId = uid, c_room = ref\<rparr>"
  have hs: "handlers s' x = (if x = sid then Some ?new else handlers s x)" for x
    using h by simp
  have old: "handlers s' x = Some cl" if "handlers s x = Some cl" for x cl
    using that fresh by (auto simp: hs)
  have cases: "cl = ?new \<or> handlers s x = Some cl" if "handlers s' x = Some cl" for x cl
    using that by (auto simp: hs split: if_splits)
  have len: "length (objects s') = length (objects s)" using o by simp
  have b: "ref < length (objects s)" using soundD(4) [OF c reg] .
  {
    fix x cl assume "handlers s' x = Some cl"
    then show "c_room cl < length (objects s')"
      using cases [of x cl] soundD(1) [OF c, of x cl] b len by auto
  next
    fix i k
    assume i: "i < length (objects s')" and k: "k \<in> fst ` set (users (objects s' ! i))"
    show "\<exists>x cl. handlers s' x = Some cl \<and> c_room cl = i \<and> c_userId cl = k"
    proof (cases "i = ref \<and> k = uid")
      case True
      then have "handlers s' sid = Some ?new \<and> c_room ?new = i \<and> c_userId ?new = k"
        by (simp add: hs)
      then show ?thesis by blast
    next
      case False
      have "k \<in> fst ` set (users (objects s ! i))"
      proof (cases "i = ref")
        case True
        then have "k \<in> fst ` set (users r')" using i k o by simp
        then show ?thesis using keys False True by auto
      next
        case False
        then show ?thesis using k o by simp
      qed
      then obtain x cl where "handlers s x = Some cl" "c_room cl = i" "c_userId cl = k"
        using soundD(2) [OF c, of i k] i len by auto
      then show ?thesis using old by blast
    qed
  next
    fix x cl x' cl'
    assume a: "handlers s' x = Some cl" "handlers s' x' = Some cl'" "c_room cl = c_room cl'"
    have p: "c_projectId d = pid" if "handlers s y = Some d" "c_room d = ref" for y d
      using soundD(6) [OF c, of pid d y] reg that by simp
    show "c_projectId cl = c_projectId cl'"
      using cases [OF a(1)] cases [OF a(2)] a(3) p soundD(3) [OF c, of x cl x' cl']
      by auto
  next
    fix p i assume "rooms s' p = Some i"
    then show "i < length (objects s')" using soundD(4) [OF c, of p i] r len by simp
  next
    fix p p' i assume "rooms s' p = Some i" "rooms s' p' = Some i"
    then show "p = p'" using soundD(5) [OF c, of p i p'] r by simp
  next
    fix p x cl assume a: "rooms s' p = Some (c_room cl)" "handlers s' x = Some cl"
    show "c_projectId cl = p"
      using cases [OF a(2)] a(1) r reg soundD(5) [OF c, of p ref pid]
        soundD(6) [OF c, of p cl x] by auto
  }
qed

lemma sound_create:
  assumes c: "sound s" and reg: "rooms s pid = None"
    and o: "objects s' = objects s @ [\<lparr>users = [], content = []\<rparr>]"
    and r: "rooms s' = (rooms s)(pid \<mapsto> length (objects s))"
    and h: "handlers s' = handlers s"
  shows "sound s'"
proof (rule soundI)
  have len: "length (objects s') = Suc (length (objects s))" using o by simp
  have rs: "rooms s' p = (if p = pid then Some (length (objects s)) else rooms s p)" for p
    using r by simp
  {
    fix x cl assume "handlers s' x = Some cl"
    then show "c_room cl < length (objects s')"
      using soundD(1) [OF c, of x cl] h len by simp
  next
    fix i k
    assume i: "i < length (objects s')" and k: "k \<in> fst ` set (users (objects s' ! i))"
    have "i < length (objects s)"
      using i k o len by (cases "i = length (objects s)") simp_all
    then show "\<exists>x cl. handlers s' x = Some cl \<and> c_room cl = i \<and> c_userId cl = k"
      using soundD(2) [OF c, of i k] k o h by (simp add: nth_append)
  next
    fix x cl x' cl'
    assume "handlers s' x = Some cl" "handlers s' x' = Some cl'" "c_room cl = c_room cl'"
    then show "c_projectId cl = c_projectId cl'"
      using soundD(3) [OF c, of x cl x' cl'] h by simp
  next
    fix p i assume "rooms s' p = Some i"
    then show "i < length (objects s')"
      using soundD(4) [OF c, of p i] len by (auto simp: rs split: if_splits)
  next
    fix p p' i assume "rooms s' p = Some i" "rooms s' p' = Some i"
    then show "p = p'"
      using soundD(5) [OF c, of p i p'] soundD(4) [OF c, of p i] soundD(4) [OF c, of p' i]
      by (auto simp: rs split: if_splits)
  next
    fix p x cl assume a: "rooms s' p = Some (c_room cl)" "handlers s' x = Some cl"
    then show "c_projectId cl = p"
      using soundD(6) [OF c, of p cl x] soundD(1) [OF c, of x cl] h
      by (auto simp: rs split: if_splits)
  }
qed

lemma sound_detach:
  assumes c: "sound s" and at: "handlers s sid = Some cl"
    and o: "objects s' = (objects s)[c_room cl := (objects s ! c_room cl)
        \<lparr>users := AList.delete (c_userId cl) (users (objects s ! c_room cl))\<rparr>]"
    and r: "\<And>p i. rooms s' p = Some i \<Longrightarrow> rooms s p = Some i"
    and h: "handlers s' = (handlers s)(sid := None)"
  shows "sound s'"
proof (rule soundI)
  have hs: "handlers s' x = (if x = sid then None else handlers s x)" for x
    using h by simp
  have old: "handlers s x = Some d \<and> x \<noteq> sid" if "handlers s' x = Some d" for x d
    using that by (auto simp: hs split: if_splits)
  have len: "length (objects s') = length (objects s)" using o by simp
  {
    fix x d assume "handlers s' x = Some d"
    then show "c_room d < length (objects s')"
      using old [of x d] soundD(1) [OF c, of x d] len by simp
  next
    fix i k
    assume i: "i < length (objects s')" and k: "k \<in> fst ` set (users (objects s' ! i))"
    have k': "k \<in> fst ` set (users (objects s ! i)) \<and> (i = c_room cl \<longrightarrow> k \<noteq> c_userId cl)"
      using i k o len by (cases "i = c_room cl") (auto simp: AList.delete_eq)
    then obtain x d where x: "handlers s x = Some d" "c_room d = i" "c_userId d = k"
      using soundD(2) [OF c, of i k] i len by auto
    then have "x \<noteq> sid" using k' at by auto
    then have "handlers s' x = Some d" using x(1) by (simp add: hs)
    with x show "\<exists>x d. handlers s' x = Some d \<and> c_room d = i \<and> c_userId d = k" by blast
  next
    fix x d x' d'
    assume "handlers s' x = Some d" "handlers s' x' = Some d'" "c_room d = c_room d'"
    then show "c_projectId d = c_projectId d'"
      using soundD(3) [OF c, of x d x' d'] old by blast
  next
    fix p i assume "rooms s' p = Some i"
    then show "i < length (objects s')" using soundD(4) [OF c, of p i] r len by simp
  next
    fix p p' i assume "rooms s' p = Some i" "rooms s' p' = Some i"
    then show "p = p'" using soundD(5) [OF c, of p i p'] r by blast
  next
    fix p x d assume a: "rooms s' p = Some (c_room d)" "handlers s' x = Some d"
    show "c_projectId d = p"
      using soundD(6) [OF c, of p d x] r [OF a(1)] old [OF a(2)] by simp
  }
qed

lemma sound_on_cursor:
  assumes c: "sound s"
  shows "sound (state (on_cursor now sid payload s))"
proof (cases rule: on_cursor_cases [of now sid payload s])
  case silent
  with c show ?thesis by simp
next
  case (moved cl upd user)
  show ?thesis
  proof (rule sound_users [OF c, where ref = "c_room cl"])
    show "objects (state (on_cursor now sid payload s)) =
        (objects s)[c_room cl := (objects s ! c_room cl)
          \<lparr>users := AList.update (c_userId cl)
             (user\<lparr>cursor := cu_position upd, selection := cu_selection upd,
                   lastActive := now\<rparr>)
             (users (objects s ! c_room cl))\<rparr>]"
      by (simp add: moved(4))
    show "rooms (state (on_cursor now sid payload s)) = rooms s"
      and "handlers (state (on_cursor now sid payload s)) = handlers s"
      by (simp_all add: moved(4))
    fix k
    assume "k \<in> fst ` set (users ((objects s ! c_room cl)
        \<lparr>users := AList.update (c_userId cl)
           (user\<lparr>cursor := cu_position upd, selection := cu_selection upd,
                 lastActive := now\<rparr>)
           (users (objects s ! c_room cl))\<rparr>))"
    then have "k = c_userId cl \<or> k \<in> fst ` set (users (objects s ! c_room cl))"
      by (auto simp: dom_update)
    then show "k \<in> fst ` set (users (objects s ! c_room cl)) \<or>
        (\<exists>sid cl'. handlers s sid = Some cl' \<and> c_room cl' = c_room cl \<and> c_userId cl' = k)"
      using moved(1) by blast
  qed
qed

lemma sound_on_change:
  assumes c: "sound s"
  shows "sound (state (on_change sid payload s))"
  using on_change_state [of sid payload s]
proof
  assume "state (on_change sid payload s) = s"
  with c show ?thesis by simp
next
  assume "\<exists>cl c. handlers s sid = Some cl \<and>
      state (on_change sid payload s) =
        s\<lparr>objects := (objects s)[c_room cl := (objects s ! c_room cl)\<lparr>content := c\<rparr>]\<rparr>"
  then obtain cl c' where "handlers s sid = Some cl" and st: "state (on_change sid payload s) =
      s\<lparr>objects := (objects s)[c_room cl := (objects s ! c_room cl)\<lparr>content := c'\<rparr>]\<rparr>"
    by (elim exE conjE)
  show ?thesis
    by (rule sound_users [OF c, where ref = "c_room cl"
          and r' = "(objects s ! c_room cl)\<lparr>content := c'\<rparr>"]) (simp_all add: st)
qed

lemma sound_on_disconnect:
  assumes c: "sound s"
  shows "sound (state (on_disconnect sid s))"
proof (cases "handlers s sid")
  case None
  then have "sound (state (on_disconnect sid s)) = sound s"
    by (intro sound_fields) (simp_all add: on_disconnect_def quiet_def)
  with c show ?thesis by simp
next
  case (Some cl)
  show ?thesis
    by (rule sound_detach [OF c Some])
      (simp_all add: on_disconnect_attached [OF Some] split: if_splits)
qed

lemma connection_unparsed:
  assumes "q_projectId q = Some pid" "q_userId q = Some uid" "q_profile q = Some prof"
    and "pid \<noteq> []" "uid \<noteq> []" "prof \<noteq> []" and "JSON_parse prof = None"
  shows "rooms s pid = Some ref \<Longrightarrow>
           connection JSON_parse now sid q s =
             \<lparr>state = s\<lparr>adapter := List.insert (sid, pid) (adapter s)\<rparr>,
              emitted = [], raised = Some SyntaxError, disconnected = False\<rparr>"
    and "rooms s pid = None \<Longrightarrow>
           connection JSON_parse now sid q s =
             \<lparr>state = s\<lparr>adapter := List.insert (sid, pid) (adapter s),
                          objects := objects s @ [\<lparr>users = [], content = []\<rparr>],
                          rooms := (rooms s)(pid \<mapsto> length (objects s))\<rparr>,
              emitted = [], raised = Some SyntaxError, disconnected = False\<rparr>"
  using assms by (simp_all add: connection_def Let_def)

lemma sound_connection:
  assumes c: "sound s" and fresh: "handlers s sid = None"
  shows "sound (state (connection JSON_parse now sid q s))"
proof (cases rule: connection_cases [of q JSON_parse now sid s])
  case rejected
  with c show ?thesis by simp
next
  case (unparsed pid uid prof)
  show ?thesis
  proof (cases "rooms s pid")
    case None
    show ?thesis
      by (rule sound_create [OF c None])
        (simp_all add: connection_unparsed(2) [where JSON_parse = JSON_parse and prof = prof,
            OF unparsed(1-7) None])
  next
    case (Some ref)
    have "sound (state (connection JSON_parse now sid q s)) = sound s"
      by (rule sound_fields)
        (simp_all add: connection_unparsed(1) [where JSON_parse = JSON_parse and prof = prof,
            OF unparsed(1-7) Some])
    with c show ?thesis by simp
  qed
next
  case (joined pid uid prof p)
  show ?thesis
  proof (cases "rooms s pid")
    case None
    let ?s1 = "s\<lparr>objects := objects s @ [\<lparr>users = [], content = []\<rparr>],
        rooms := (rooms s)(pid \<mapsto> length (objects s))\<rparr>"
    have c1: "sound ?s1"
      by (rule sound_create [OF c None]) simp_all
    show ?thesis
      by (rule sound_attach [OF c1, where sid = sid and pid = pid and uid = uid
            and ref = "length (objects s)"
            and r' = "\<lparr>users = [(uid, joined_user uid p now)], content = []\<rparr>"])
        (simp_all add: fresh connection_accepted(2) [where JSON_parse = JSON_parse
            and prof = prof, OF joined None])
  next
    case (Some ref)
    show ?thesis
      by (rule sound_attach [OF c fresh Some, where uid = uid
            and r' = "(objects s ! ref)\<lparr>users := AList.update uid (joined_user uid p now)
              (users (objects s ! ref))\<rparr>"])
        (simp_all add: dom_update connection_accepted(1) [where JSON_parse = JSON_parse
            and prof = prof, OF joined Some])
  qed
qed

lemma sound_step:
  assumes "sound s" and "fresh_socket s ev"
  shows "sound (state (step JSON_parse now ev s))"
  using assms
  by (cases ev)
    (simp_all add: fresh_socket_def sound_connection sound_on_cursor sound_on_change
      sound_on_disconnect)

text \<open>The last participant of a room leaves its users empty.\<close>

lemma last_participant_empties:
  assumes c: "sound s" and h: "handlers s sid = Some cl"
    and last: "participants s (c_projectId cl) = {sid}"
  shows "AList.delete (c_userId cl) (users (objects s ! c_room cl)) = []"
proof (rule ccontr)
  assume "AList.delete (c_userId cl) (users (objects s ! c_room cl)) \<noteq> []"
  then obtain kv where kv: "kv \<in> set (AList.delete (c_userId cl) (users (objects s ! c_room cl)))"
    by (cases "AList.delete (c_userId cl) (users (objects s ! c_room cl))") auto
  then have ne: "fst kv \<noteq> c_userId cl" and mem: "kv \<in> set (users (objects s ! c_room cl))"
    by (auto simp: AList.delete_eq)
  from mem have "fst kv \<in> fst ` set (users (objects s ! c_room cl))" by (rule imageI)
  then obtain sid' cl' where o: "handlers s sid' = Some cl'" "c_room cl' = c_room cl"
      "c_userId cl' = fst kv"
    using soundD(2) [OF c soundD(1) [OF c h]] by blast
  have "c_projectId cl' = c_projectId cl"
    using soundD(3) [OF c o(1) h o(2)] .
  then have "sid' \<in> participants s (c_projectId cl)"
    using o(1) by (auto simp: participants_def)
  then have "sid' = sid" using last by simp
  then show False using o h ne by simp
qed

lemma last_participant_gone:
  assumes c: "sound s" and h: "handlers s sid = Some cl"
    and last: "participants s (c_projectId cl) = {sid}"
  shows "rooms (state (on_disconnect sid s)) (c_projectId cl) = None"
    and "participants (state (on_disconnect sid s)) (c_projectId cl) = {}"
    and "handlers (state (on_disconnect sid s)) sid' = Some cl' \<Longrightarrow> c_room cl' \<noteq> c_room cl"
    and "rooms (state (on_disconnect sid s)) p \<noteq> Some (c_room cl)"
    and "length (objects (state (on_disconnect sid s))) = length (objects s)"
    and "raised (on_disconnect sid s) = None"
    and "emitted (on_disconnect sid s) =
       [\<lparr>to_room = c_projectId cl,
         recipients = members (s\<lparr>adapter := filter (\<lambda>m. fst m \<noteq> sid) (adapter s)\<rparr>)
           (c_projectId cl),
         message = Presence []\<rparr>]"
proof -
  note e = last_participant_empties [OF c h last]
  note d = on_disconnect_attached [OF h]
  show "rooms (state (on_disconnect sid s)) (c_projectId cl) = None"
    by (simp add: d e)
  show "participants (state (on_disconnect sid s)) (c_projectId cl) = {}"
    using last by (auto simp: d participants_def)
  show "length (objects (state (on_disconnect sid s))) = length (objects s)"
    and "raised (on_disconnect sid s) = None"
    by (simp_all add: d)
  show "emitted (on_disconnect sid s) =
       [\<lparr>to_room = c_projectId cl,
         recipients = members (s\<lparr>adapter := filter (\<lambda>m. fst m \<noteq> sid) (adapter s)\<rparr>)
           (c_projectId cl),
         message = Presence []\<rparr>]"
    by (simp add: d e)
  show "rooms (state (on_disconnect sid s)) p \<noteq> Some (c_room cl)"
  proof
    assume "rooms (state (on_disconnect sid s)) p = Some (c_room cl)"
    then have p: "rooms s p = Some (c_room cl)" "p \<noteq> c_projectId cl"
      by (auto simp: d e split: if_splits)
    then show False using soundD(6) [OF c p(1) h] by simp
  qed
  assume "handlers (state (on_disconnect sid s)) sid' = Some cl'"
  then have o: "handlers s sid' = Some cl'" "sid' \<noteq> sid"
    by (auto simp: d split: if_splits)
  show "c_room cl' \<noteq> c_room cl"
  proof
    assume "c_room cl' = c_room cl"
    then have "c_projectId cl' = c_projectId cl"
      using soundD(3) [OF c o(1) h] by simp
    then have "sid' \<in> participants s (c_projectId cl)"
      using o(1) by (auto simp: participants_def)
    then show False using last o(2) by simp
  qed
qed

lemma update_absent: "k \<notin> fst ` set al \<Longrightarrow> AList.update k v al = al @ [(k, v)]"
  by (induction al) auto

lemma serving_consistent:
  assumes c: "consistent s"
  shows "serving s p = (case rooms s p of Some ref \<Rightarrow> {ref} | None \<Rightarrow> {})"
proof -
  have "c_room cl = ref" if "handlers s sid = Some cl" "c_projectId cl = p" "rooms s p = Some ref"
    for sid cl ref
    using consistentD(1) [OF c that(1)] that(2,3) by simp
  moreover have "False" if "handlers s sid = Some cl" "c_projectId cl = p" "rooms s p = None"
    for sid cl
    using consistentD(1) [OF c that(1)] that(2,3) by simp
  ultimately show ?thesis
    unfolding serving_def by (cases "rooms s p") (simp_all, blast+)
qed

lemma discardedD:
  assumes "discarded s p ref"
  shows "rooms s p = None" and "participants s p = {}" and "ref < length (objects s)"
    and "handlers s sid = Some cl \<Longrightarrow> c_room cl \<noteq> ref"
    and "rooms s p' \<noteq> Some ref"
  using assms unfolding discarded_def by simp_all

lemma discardedI:
  assumes "rooms s p = None" and "participants s p = {}" and "ref < length (objects s)"
    and "\<And>sid cl. handlers s sid = Some cl \<Longrightarrow> c_room cl \<noteq> ref"
    and "\<And>p'. rooms s p' \<noteq> Some ref"
  shows "discarded s p ref"
  unfolding discarded_def using assms by simp

lemma discarded_fields:
  assumes "rooms s' = rooms s" "handlers s' = handlers s"
    and "length (objects s') = length (objects s)"
  shows "discarded s' p ref = discarded s p ref"
  by (simp add: discarded_def participants_def assms)

lemma discarded_on_cursor:
  "discarded (state (on_cursor now sid payload s)) p ref = discarded s p ref"
proof (cases rule: on_cursor_cases [of now sid payload s])
  case silent
  then show ?thesis by simp
next
  case (moved cl upd user)
  show ?thesis by (rule discarded_fields) (simp_all add: moved(4))
qed

lemma discarded_on_change:
  "discarded (state (on_change sid payload s)) p ref = discarded s p ref"
proof -
  have "rooms (state (on_change sid payload s)) = rooms s"
    and "handlers (state (on_change sid payload s)) = handlers s"
    and "length (objects (state (on_change sid payload s))) = length (objects s)"
    using on_change_state [of sid payload s] by auto
  then show ?thesis by (rule discarded_fields)
qed

lemma discarded_on_disconnect:
  assumes d: "discarded s p ref"
  shows "discarded (state (on_disconnect sid s)) p ref"
proof (cases "handlers s sid")
  case None
  have "discarded (state (on_disconnect sid s)) p ref = discarded s p ref"
    by (rule discarded_fields) (simp_all add: on_disconnect_def quiet_def None)
  with d show ?thesis by simp
next
  case (Some cl)
  note e = on_disconnect_attached [OF Some]
  show ?thesis
  proof (rule discardedI)
    show "rooms (state (on_disconnect sid s)) p = None"
      using discardedD(1) [OF d] by (simp add: e)
    show "participants (state (on_disconnect sid s)) p = {}"
      using discardedD(2) [OF d] by (auto simp: e participants_def split: if_splits)
    show "ref < length (objects (state (on_disconnect sid s)))"
      using discardedD(3) [OF d] by (simp add: e)
    show "c_room cl' \<noteq> ref" if "handlers (state (on_disconnect sid s)) sid' = Some cl'"
      for sid' cl'
      using that discardedD(4) [OF d, of sid' cl'] by (simp add: e split: if_splits)
    show "rooms (state (on_disconnect sid s)) p' \<noteq> Some ref" for p'
      using discardedD(5) [OF d, of p'] by (simp add: e split: if_splits)
  qed
qed

lemma discarded_connection:
  assumes d: "discarded s p ref" and other: "\<not> joins p (Connect sid q)"
  shows "discarded (state (connection JSON_parse now sid q s)) p ref"
proof (cases rule: connection_cases [of q JSON_parse now sid s])
  case rejected
  with d show ?thesis by simp
next
  case (unparsed pid uid prof)
  have ne: "pid \<noteq> p"
    using other unparsed(1-6) by (auto simp: joins_def accepted_def)
  show ?thesis
  proof (cases "rooms s pid")
    case None
    note e = connection_unparsed(2) [where JSON_parse = JSON_parse and prof = prof,
        OF unparsed(1-7) None, of now sid]
    show ?thesis
      using d ne by (auto simp: e discarded_def participants_def)
  next
    case (Some r)
    note e = connection_unparsed(1) [where JSON_parse = JSON_parse and prof = prof,
        OF unparsed(1-7) Some, of now sid]
    have "discarded (state (connection JSON_parse now sid q s)) p ref = discarded s p ref"
      by (rule discarded_fields) (simp_all add: e)
    with d show ?thesis by simp
  qed
next
  case (joined pid uid prof pr)
  have ne: "pid \<noteq> p"
    using other joined(1-6) by (auto simp: joins_def accepted_def)
  show ?thesis
  proof (cases "rooms s pid")
    case None
    note e = connection_accepted(2) [where JSON_parse = JSON_parse and prof = prof,
        OF joined None, of now sid]
    show ?thesis
    proof (rule discardedI)
      show "rooms (state (connection JSON_parse now sid q s)) p = None"
        using discardedD(1) [OF d] ne by (simp add: e)
      show "participants (state (connection JSON_parse now sid q s)) p = {}"
        using discardedD(2) [OF d] ne by (auto simp: e participants_def split: if_splits)
      show "ref < length (objects (state (connection JSON_parse now sid q s)))"
        using discardedD(3) [OF d] by (simp add: e)
      show "c_room cl' \<noteq> ref"
        if "handlers (state (connection JSON_parse now sid q s)) sid' = Some cl'" for sid' cl'
        using that discardedD(4) [OF d, of sid' cl'] discardedD(3) [OF d]
        by (auto simp: e split: if_splits)
      show "rooms (state (connection JSON_parse now sid q s)) p' \<noteq> Some ref" for p'
        using discardedD(5) [OF d, of p'] discardedD(3) [OF d]
        by (auto simp: e split: if_splits)
    qed
  next
    case (Some r)
    note e = connection_accepted(1) [where JSON_parse = JSON_parse and prof = prof,
        OF joined Some, of now sid]
    show ?thesis
    proof (rule discardedI)
      show "rooms (state (connection JSON_parse now sid q s)) p = None"
        using discardedD(1) [OF d] by (simp add: e)
      show "participants (state (connection JSON_parse now sid q s)) p = {}"
        using discardedD(2) [OF d] ne by (auto simp: e participants_def split: if_splits)
      show "ref < length (objects (state (connection JSON_parse now sid q s)))"
        using discardedD(3) [OF d] by (simp add: e)
      show "c_room cl' \<noteq> ref"
        if "handlers (state (connection JSON_parse now sid q s)) sid' = Some cl'" for sid' cl'
        using that discardedD(4) [OF d, of sid' cl'] discardedD(5) [OF d, of pid] Some
        by (auto simp: e split: if_splits)
      show "rooms (state (connection JSON_parse now sid q s)) p' \<noteq> Some ref" for p'
        using discardedD(5) [OF d, of p'] by (simp add: e)
    qed
  qed
qed

lemma discarded_step:
  assumes "discarded s p ref" and "\<not> joins p ev"
  shows "discarded (state (step JSON_parse now ev s)) p ref"
  using assms
  by (cases ev)
    (simp_all add: discarded_connection discarded_on_cursor discarded_on_change
      discarded_on_disconnect)

lemma discarded_run:
  assumes "discarded s p ref" and "list_all (\<lambda>e. \<not> joins p (snd e)) evs"
  shows "discarded (state (run JSON_parse evs s)) p ref"
  using assms
proof (induction evs arbitrary: s)
  case Nil
  then show ?case by (simp add: quiet_def)
next
  case (Cons e evs)
  obtain now ev where e: "e = (now, ev)" by (cases e)
  have d: "discarded (state (step JSON_parse now ev s)) p ref"
    using Cons.prems e by (intro discarded_step) simp_all
  show ?case
  proof (cases "raised (step JSON_parse now ev s) = None")
    case True
    have "discarded (state (run JSON_parse evs (state (step JSON_parse now ev s)))) p ref"
      using d Cons.prems(2) by (intro Cons.IH) simp_all
    then show ?thesis using True by (simp add: e Let_def)
  next
    case False
    then show ?thesis using d by (simp add: e Let_def)
  qed
qed

lemma last_participant_discarded:
  assumes "sound s" and "handlers s sid = Some cl"
    and "participants s (c_projectId cl) = {sid}"
  shows "discarded (state (on_disconnect sid s)) (c_projectId cl) (c_room cl)"
  using last_participant_gone [OF assms] soundD(1) [OF assms(1,2)]
  by (intro discardedI) simp_all

text \<open>A join to an id that has no room, whatever the profile.\<close>

lemma join_fresh:
  assumes q: "q_projectId q = Some pid" "q_userId q = Some uid" "q_profile q = Some prof"
    and ne: "pid \<noteq> []" "uid \<noteq> []" "prof \<noteq> []" and r: "rooms s pid = None"
  shows "objects (state (connection JSON_parse now sid q s)) =
           objects s @ [\<lparr>users = (case JSON_parse prof of
                                     Some p \<Rightarrow> [(uid, joined_user uid p now)]
                                   | None \<Rightarrow> []),
                         content = []\<rparr>]"
    and "rooms (state (connection JSON_parse now sid q s)) =
           (rooms s)(pid \<mapsto> length (objects s))"
    and "handlers (state (connection JSON_parse now sid q s)) =
           (case JSON_parse prof of
              Some p \<Rightarrow> (handlers s)(sid \<mapsto>
                \<lparr>c_projectId = pid, c_userId = uid, c_room = length (objects s)\<rparr>)
            | None \<Rightarrow> handlers s)"
    and "raised (connection JSON_parse now sid q s) =
           (case JSON_parse prof of Some p \<Rightarrow> None | None \<Rightarrow> Some SyntaxError)"
proof -
  show "objects (state (connection JSON_parse now sid q s)) =
           objects s @ [\<lparr>users = (case JSON_parse prof of
                                     Some p \<Rightarrow> [(uid, joined_user uid p now)]
                                   | None \<Rightarrow> []),
                         content = []\<rparr>]"
    and "rooms (state (connection JSON_parse now sid q s)) =
           (rooms s)(pid \<mapsto> length (objects s))"
    and "handlers (state (connection JSON_parse now sid q s)) =
           (case JSON_parse prof of
              Some p \<Rightarrow> (handlers s)(sid \<mapsto>
                \<lparr>c_projectId = pid, c_userId = uid, c_room = length (objects s)\<rparr>)
            | None \<Rightarrow> handlers s)"
    and "raised (connection JSON_parse now sid q s) =
           (case JSON_parse prof of Some p \<Rightarrow> None | None \<Rightarrow> Some SyntaxError)"
    using connection_unparsed(2) [where JSON_parse = JSON_parse and prof = prof,
        OF q ne _ r, of now sid]
      connection_accepted(2) [where JSON_parse = JSON_parse and prof = prof,
        OF q ne _ r, of _ now sid]
    by (cases "JSON_parse prof"; simp)+
qed

section \<open>What the handlers send\<close>

lemma consistent_has_record:
  assumes c: "consistent s" and h: "handlers s sid = Some cl"
  shows "map_of (users (objects s ! c_room cl)) (c_userId cl) \<noteq> None"
proof -
  have r: "rooms s (c_projectId cl) = Some (c_room cl)"
    using consistentD(1) [OF c h] .
  have "c_userId cl \<in> connected_users s (c_projectId cl)"
    using h unfolding connected_users_def by blast
  then have "c_userId cl \<in> fst ` set (users (objects s ! c_room cl))"
    using consistentD(4) [OF c r] by simp
  then show ?thesis by (simp add: map_of_eq_None_iff)
qed

lemma announced_connection:
  assumes "q_projectId q = Some pid" "q_userId q = Some uid" "q_profile q = Some prof"
    and "pid \<noteq> []" "uid \<noteq> []" "prof \<noteq> []" and "JSON_parse prof = Some p"
  shows "announced (connection JSON_parse now sid q s) pid"
proof (cases "rooms s pid")
  case None
  show ?thesis
    by (simp add: announced_def connection_accepted(2) [where JSON_parse = JSON_parse
          and prof = prof, OF assms None])
next
  case (Some ref)
  show ?thesis
    by (simp add: announced_def connection_accepted(1) [where JSON_parse = JSON_parse
          and prof = prof, OF assms Some])
qed

lemma announced_on_cursor:
  assumes "handlers s sid = Some cl"
    and "map_of (users (objects s ! c_room cl)) (c_userId cl) \<noteq> None"
  shows "announced (on_cursor now sid (Some upd) s) (c_projectId cl)"
  using assms
  by (auto simp: announced_def on_cursor_def Let_def io_to_emit_def)

lemma announced_on_disconnect:
  assumes "handlers s sid = Some cl"
  shows "announced (on_disconnect sid s) (c_projectId cl)"
  by (simp add: announced_def on_disconnect_attached [OF assms])

lemma relayed_on_change:
  assumes "handlers s sid = Some cl"
  shows "relayed (on_change sid payload s) (c_projectId cl) payload"
  by (simp add: relayed_def on_change_emitted [OF assms] socket_to_emit_def)

lemma update_in: "(k, v) \<in> set (AList.update k v al)"
  by (induction al) auto

lemma join_snapshot:
  assumes "q_projectId q = Some pid" "q_userId q = Some uid" "q_profile q = Some prof"
    and "pid \<noteq> []" "uid \<noteq> []" "prof \<noteq> []" and "JSON_parse prof = Some p"
  shows "\<exists>rs ps. emitted (connection JSON_parse now sid q s) =
             [\<lparr>to_room = pid, recipients = rs, message = Presence ps\<rparr>] \<and>
           joined_user uid p now \<in> set ps"
proof (cases "rooms s pid")
  case None
  show ?thesis
    by (simp add: connection_accepted(2) [where JSON_parse = JSON_parse
          and prof = prof, OF assms None])
next
  case (Some ref)
  have "joined_user uid p now \<in> snd ` set (AList.update uid (joined_user uid p now)
      (users (objects s ! ref)))"
    using update_in [of uid "joined_user uid p now" "users (objects s ! ref)"] by force
  then show ?thesis
    by (simp add: connection_accepted(1) [where JSON_parse = JSON_parse
          and prof = prof, OF assms Some])
qed

lemma cursor_snapshot:
  assumes c: "consistent s" and h: "handlers s sid = Some cl"
  shows "\<exists>rs ps u. emitted (on_cursor now sid (Some upd) s) =
             [\<lparr>to_room = c_projectId cl, recipients = rs, message = Presence ps\<rparr>] \<and>
           u \<in> set ps \<and> userId u = c_userId cl \<and> cursor u = cu_position upd \<and>
           selection u = cu_selection upd \<and> lastActive u = now"
proof -
  obtain user where user: "map_of (users (objects s ! c_room cl)) (c_userId cl) = Some user"
    using consistent_has_record [OF c h] by blast
  have r: "rooms s (c_projectId cl) = Some (c_room cl)"
    using consistentD(1) [OF c h] .
  have "(c_userId cl, user) \<in> set (users (objects s ! c_room cl))"
    using user by (rule map_of_SomeD)
  then have id: "userId user = c_userId cl"
    using consistentD(5) [OF c r] by fastforce
  let ?u = "user\<lparr>cursor := cu_position upd, selection := cu_selection upd, lastActive := now\<rparr>"
  have "?u \<in> snd ` set (AList.update (c_userId cl) ?u (users (objects s ! c_room cl)))"
    using update_in [of "c_userId cl" ?u "users (objects s ! c_room cl)"] by force
  then have "?u \<in> set (map snd (AList.update (c_userId cl) ?u
      (users (objects s ! c_room cl))))"
    by simp
  moreover have "emitted (on_cursor now sid (Some upd) s) =
      [\<lparr>to_room = c_projectId cl, recipients = members s (c_projectId cl),
        message = Presence (map snd (AList.update (c_userId cl) ?u
          (users (objects s ! c_room cl))))\<rparr>]"
    using h user by (simp add: on_cursor_def Let_def io_to_emit_def members_def)
  ultimately show ?thesis
    using id by (intro exI [of _ ?u] exI conjI) (assumption | simp)+
qed

lemma leave_snapshot:
  assumes c: "consistent s" and h: "handlers s sid = Some cl"
  shows "\<exists>rs ps. emitted (on_disconnect sid s) =
             [\<lparr>to_room = c_projectId cl, recipients = rs, message = Presence ps\<rparr>] \<and>
           c_userId cl \<notin> userId ` set ps"
proof -
  have r: "rooms s (c_projectId cl) = Some (c_room cl)"
    using consistentD(1) [OF c h] .
  have "userId (snd kv) \<noteq> c_userId cl"
    if "kv \<in> set (AList.delete (c_userId cl) (users (objects s ! c_room cl)))" for kv
  proof -
    have "fst kv \<noteq> c_userId cl" using that by (auto simp: AList.delete_eq)
    moreover have "kv \<in> set (users (objects s ! c_room cl))" using that by (rule delete_pairs)
    ultimately show ?thesis using consistentD(5) [OF c r, of kv] by simp
  qed
  then have "c_userId cl \<notin> userId ` snd `
      set (AList.delete (c_userId cl) (users (objects s ! c_room cl)))"
    by force
  then show ?thesis
    by (simp add: on_disconnect_attached [OF h])
qed

section \<open>Range replacement (C1, C3)\<close>

text \<open>
  C1, as the code has it. For every buffer (a sequence of lines) and every change whose
  range lies within the bounds of the buffer, \<open>applyChange\<close> returns a content whose
  lines are the lines before the start line, then the lines of: the prefix of the start
  line, the replacement text, the suffix of the end line; then the lines after the end
  line. A single-line range is the case where start and end line are the same line. In
  particular, the range (1,2)-(2,2) with the text X, line feed, Y on the buffer abc, def
  gives the lines aX and Yef.
\<close>

theorem applyChange_replaces_region:
  "(is_buffer ls \<and> in_bounds ls r \<longrightarrow>
      (\<exists>c. applyChange (join_nl ls) (Some r) t = Inr c \<and>
           split_nl c = range_replace ls r t)) \<and>
   (\<exists>c. applyChange (join_nl [''abc'', ''def''])
          (Some \<lparr>startLineNumber = 1, startColumn = 2, endLineNumber = 2, endColumn = 2\<rparr>)
          ''X\<newline>Y'' = Inr c \<and>
        split_nl c = [''aX'', ''Yef''])"
proof (intro conjI impI)
  assume a: "is_buffer ls \<and> in_bounds ls r"
  then have "is_buffer (range_replace ls r t)"
    by (simp add: range_replace_buffer)
  then have "split_nl (join_nl (range_replace ls r t)) = range_replace ls r t"
    by (rule split_join_buffer)
  then show "\<exists>c. applyChange (join_nl ls) (Some r) t = Inr c \<and>
      split_nl c = range_replace ls r t"
    using a by (simp add: applyChange_lines)
next
  let ?ls = "[''abc'', ''def'']"
  let ?r = "\<lparr>startLineNumber = 1, startColumn = 2, endLineNumber = 2, endColumn = 2\<rparr>"
  have b: "is_buffer ?ls" by (simp add: is_buffer_def)
  have i: "in_bounds ?ls ?r" by (simp add: in_bounds_def)
  have "applyChange (join_nl ?ls) (Some ?r) ''X\<newline>Y'' =
      Inr (join_nl (range_replace ?ls ?r ''X\<newline>Y''))"
    using b i by (rule applyChange_lines)
  moreover have "range_replace ?ls ?r ''X\<newline>Y'' = [''aX'', ''Yef'']"
    by (simp add: range_replace_def)
  ultimately show "\<exists>c. applyChange (join_nl ?ls) (Some ?r) ''X\<newline>Y'' = Inr c \<and>
      split_nl c = [''aX'', ''Yef'']"
    by simp
qed

theorem applyChange_replaces_region_example:
  "is_buffer [''ab'', ''cd'', ''ef''] \<and>
   in_bounds [''ab'', ''cd'', ''ef'']
     \<lparr>startLineNumber = 1, startColumn = 2, endLineNumber = 3, endColumn = 2\<rparr> \<and>
   (\<exists>c. applyChange ''ab\<newline>cd\<newline>ef''
          (Some \<lparr>startLineNumber = 1, startColumn = 2, endLineNumber = 3, endColumn = 2\<rparr>)
          ''X'' = Inr c \<and>
        split_nl c = [''aXf''])"
  using applyChange_replaces_region [of "[''ab'', ''cd'', ''ef'']"
      "\<lparr>startLineNumber = 1, startColumn = 2, endLineNumber = 3, endColumn = 2\<rparr>"
      "''X''"]
  by (simp add: is_buffer_def in_bounds_def range_replace_def)

text \<open>
  The result the claim gives for its example, the lines aX and Yf, is not what the code
  returns: column 2 of the end line def stands before the letter e, so the suffix that
  is kept is ef.
\<close>

theorem applyChange_example_keeps_ef:
  "applyChange ''abc\<newline>def''
     (Some \<lparr>startLineNumber = 1, startColumn = 2, endLineNumber = 2, endColumn = 2\<rparr>)
     ''X\<newline>Y'' = Inr ''aX\<newline>Yef'' \<and>
   split_nl ''aX\<newline>Yef'' \<noteq> [''aX'', ''Yf'']"
  by (simp add: applyChange_def index_at_def substring_def substring_from_def splice_def)

text \<open>
  C3. An insertion of a text \<open>t\<close> at a position of the buffer (an empty range there),
  followed by the deletion of the range that spans exactly the inserted text, gives back
  the original content, for every buffer, every position in it and every text.
\<close>

theorem insert_then_delete_identity:
  assumes "is_buffer ls"
    and "in_bounds ls \<lparr>startLineNumber = l, startColumn = c, endLineNumber = l, endColumn = c\<rparr>"
  shows "\<exists>c1. applyChange (join_nl ls)
                 (Some \<lparr>startLineNumber = l, startColumn = c, endLineNumber = l, endColumn = c\<rparr>)
                 t = Inr c1 \<and>
              applyChange c1 (Some (inserted_range l c t)) [] = Inr (join_nl ls)"
proof -
  let ?r = "\<lparr>startLineNumber = l, startColumn = c, endLineNumber = l, endColumn = c\<rparr>"
  let ?ls1 = "range_replace ls ?r t"
  have first: "applyChange (join_nl ls) (Some ?r) t = Inr (join_nl ?ls1)"
    using assms by (rule applyChange_lines)
  have buf1: "is_buffer ?ls1"
    using assms(1) by (rule range_replace_buffer)
  have "applyChange (join_nl ?ls1) (Some (inserted_range l c t)) [] =
      Inr (join_nl (range_replace ?ls1 (inserted_range l c t) []))"
    using buf1 insert_then_delete_lines(1) [OF assms] by (rule applyChange_lines)
  then have "applyChange (join_nl ?ls1) (Some (inserted_range l c t)) [] = Inr (join_nl ls)"
    by (simp only: insert_then_delete_lines(2) [OF assms])
  with first show ?thesis by blast
qed

theorem insert_then_delete_identity_example:
  "is_buffer [''world''] \<and>
   in_bounds [''world'']
     \<lparr>startLineNumber = 1, startColumn = 1, endLineNumber = 1, endColumn = 1\<rparr> \<and>
   inserted_range 1 1 ''hi'' =
     \<lparr>startLineNumber = 1, startColumn = 1, endLineNumber = 1, endColumn = 3\<rparr> \<and>
   applyChange ''world''
     (Some \<lparr>startLineNumber = 1, startColumn = 1, endLineNumber = 1, endColumn = 1\<rparr>)
     ''hi'' = Inr ''hiworld'' \<and>
   applyChange ''hiworld''
     (Some \<lparr>startLineNumber = 1, startColumn = 1, endLineNumber = 1, endColumn = 3\<rparr>)
     [] = Inr ''world''"
  using insert_then_delete_identity [of "[''world'']" 1 1 "''hi''"]
  by (simp add: is_buffer_def in_bounds_def inserted_range_def applyChange_def index_at_def
      substring_def substring_from_def)

section \<open>The handlers of the relay server (C2, C9, C10)\<close>

text \<open>
  C2, as the code has it. The change handler does not validate a range, and no
  InvalidRange result exists. For a change of an attached socket with a string text and
  a range whose start is not after its end and whose lines the buffer has, the columns
  lying anywhere (below 1 or beyond the end of their line): the edit is applied. The
  handler relays the change to the other sockets, raises no error, does not close the
  socket, and writes to the room the buffer in which the region of the range, its
  columns moved into their lines, is replaced by the text.
\<close>

theorem out_of_range_change:
  assumes "handlers s sid = Some cl"
    and "change_text ch = JStr t"
    and "change_range ch = Some r"
    and "\<not> lines_missing (split_nl (content (objects s ! c_room cl))) r"
    and "start_before_end r"
  shows "on_change sid (Some ch) s =
           \<lparr>state = s\<lparr>objects := (objects s)[c_room cl := (objects s ! c_room cl)
              \<lparr>content := join_nl (range_replace (split_nl (content (objects s ! c_room cl)))
                 (clamp_columns (split_nl (content (objects s ! c_room cl))) r) t)\<rparr>]\<rparr>,
            emitted = [socket_to_emit s sid (c_projectId cl) (ChangeMsg (Some ch))],
            raised = None, disconnected = False\<rparr>"
proof -
  let ?c = "content (objects s ! c_room cl)"
  have inb: "in_bounds (split_nl ?c) (clamp_columns (split_nl ?c) r)"
    using assms(4,5) by (rule in_bounds_clamp_columns)
  have "applyChange ?c (Some r) t = applyChange ?c (Some (clamp_columns (split_nl ?c) r)) t"
    by (simp add: applyChange_clamp_columns)
  also have "\<dots> = applyChange (join_nl (split_nl ?c))
      (Some (clamp_columns (split_nl ?c) r)) t"
    by (simp add: join_split)
  also have "\<dots> = Inr (join_nl (range_replace (split_nl ?c)
      (clamp_columns (split_nl ?c) r) t))"
    using is_buffer_split_nl inb by (rule applyChange_lines)
  finally show ?thesis
    using assms(1-3) by (simp add: on_change_def Let_def)
qed

theorem out_of_range_change_example:
  "\<not> lines_missing (split_nl ''abc'')
     \<lparr>startLineNumber = 1, startColumn = 10, endLineNumber = 1, endColumn = 10\<rparr> \<and>
   start_before_end
     \<lparr>startLineNumber = 1, startColumn = 10, endLineNumber = 1, endColumn = 10\<rparr> \<and>
   on_change ''s1'' (Some \<lparr>change_range =
       Some \<lparr>startLineNumber = 1, startColumn = 10, endLineNumber = 1, endColumn = 10\<rparr>,
       change_text = JStr ''X''\<rparr>) (one_room ''abc'') =
     \<lparr>state = one_room ''abcX'',
      emitted = [\<lparr>to_room = ''p'', recipients = [],
                  message = ChangeMsg (Some \<lparr>change_range =
                    Some \<lparr>startLineNumber = 1, startColumn = 10, endLineNumber = 1,
                      endColumn = 10\<rparr>,
                    change_text = JStr ''X''\<rparr>)\<rparr>],
      raised = None, disconnected = False\<rparr>"
  using out_of_range_change [of "one_room ''abc''" "''s1''"
      "\<lparr>c_projectId = ''p'', c_userId = ''u'', c_room = 0\<rparr>"
      "\<lparr>change_range =
         Some \<lparr>startLineNumber = 1, startColumn = 10, endLineNumber = 1, endColumn = 10\<rparr>,
        change_text = JStr ''X''\<rparr>" "''X''"
      "\<lparr>startLineNumber = 1, startColumn = 10, endLineNumber = 1, endColumn = 10\<rparr>"]
  by (simp add: one_room_def lines_missing_def start_before_end_def clamp_columns_def
      range_replace_def socket_to_emit_def members_def)

text \<open>
  Against C2 as stated: in a room whose content is abc, reached from the initial state,
  the change with range (1,10)-(1,10), whose columns lie beyond the end of the line,
  and text X is not dropped. No error is raised, and the content becomes abcX.
\<close>

theorem column_beyond_line_is_applied:
  "raised (run (\<lambda>_. Some (JObj []))
     [(0, Connect ''s1'' \<lparr>q_projectId = Some ''p'', q_userId = Some ''u'', q_profile = Some ''{}''\<rparr>),
      (1, ChangeEv ''s1'' (Some \<lparr>change_range =
             Some \<lparr>startLineNumber = 1, startColumn = 1, endLineNumber = 1, endColumn = 1\<rparr>,
           change_text = JStr ''abc''\<rparr>)),
      (2, ChangeEv ''s1'' (Some \<lparr>change_range =
             Some \<lparr>startLineNumber = 1, startColumn = 10, endLineNumber = 1, endColumn = 10\<rparr>,
           change_text = JStr ''X''\<rparr>))] init) = None \<and>
   map content (objects (state (run (\<lambda>_. Some (JObj []))
     [(0, Connect ''s1'' \<lparr>q_projectId = Some ''p'', q_userId = Some ''u'', q_profile = Some ''{}''\<rparr>),
      (1, ChangeEv ''s1'' (Some \<lparr>change_range =
             Some \<lparr>startLineNumber = 1, startColumn = 1, endLineNumber = 1, endColumn = 1\<rparr>,
           change_text = JStr ''abc''\<rparr>))] init))) = [''abc''] \<and>
   map content (objects (state (run (\<lambda>_. Some (JObj []))
     [(0, Connect ''s1'' \<lparr>q_projectId = Some ''p'', q_userId = Some ''u'', q_profile = Some ''{}''\<rparr>),
      (1, ChangeEv ''s1'' (Some \<lparr>change_range =
             Some \<lparr>startLineNumber = 1, startColumn = 1, endLineNumber = 1, endColumn = 1\<rparr>,
           change_text = JStr ''abc''\<rparr>)),
      (2, ChangeEv ''s1'' (Some \<lparr>change_range =
             Some \<lparr>startLineNumber = 1, startColumn = 10, endLineNumber = 1, endColumn = 10\<rparr>,
           change_text = JStr ''X''\<rparr>))] init))) = [''abcX'']"
  by (simp add: init_def connection_def on_change_def quiet_def io_to_emit_def
      socket_to_emit_def members_def applyChange_def index_at_def substring_def
      substring_from_def Let_def)

text \<open>
  C9. A handshake in which the project id, the user id or the profile is missing (or is
  the empty string) ends in the socket being disconnected, and nothing else: the state
  of the server is the one before, so no room is created, no participant is added to a
  room and no presence record is stored, and nothing is emitted.
\<close>

theorem handshake_missing_parameter:
  assumes "q_projectId q = None \<or> q_projectId q = Some [] \<or>
           q_userId q = None \<or> q_userId q = Some [] \<or>
           q_profile q = None \<or> q_profile q = Some []"
  shows "connection JSON_parse now sid q s =
           \<lparr>state = s, emitted = [], raised = None, disconnected = True\<rparr>"
  using assms by (auto simp: connection_def split: option.splits)

theorem handshake_missing_parameter_example:
  "connection (\<lambda>_. Some (JObj [])) 0 ''s2''
     \<lparr>q_projectId = Some ''fresh'', q_userId = None, q_profile = Some ''{}''\<rparr>
     (one_room ''abc'') =
   \<lparr>state = one_room ''abc'', emitted = [], raised = None, disconnected = True\<rparr> \<and>
   rooms (one_room ''abc'') ''fresh'' = None"
  using handshake_missing_parameter [of
      "\<lparr>q_projectId = Some ''fresh'', q_userId = None, q_profile = Some ''{}''\<rparr>"
      "\<lambda>_. Some (JObj [])" 0 "''s2''" "one_room ''abc''"]
  by (simp add: one_room_def)

text \<open>
  C10. Whatever the payload of a change event from an attached socket is, the handler
  emits exactly one message, the payload unchanged, to the sockets of the room other
  than the sender; this relay does not depend on the text or on what \<open>applyChange\<close>
  does. When the text of the change is not a string, nothing else happens: the state,
  and with it the content of the room, is unchanged and no error is raised.
\<close>

theorem change_relay_independent_of_update:
  assumes "handlers s sid = Some cl"
  shows "emitted (on_change sid payload s) =
           [socket_to_emit s sid (c_projectId cl) (ChangeMsg payload)] \<and>
         set (recipients (socket_to_emit s sid (c_projectId cl) (ChangeMsg payload))) =
           set (members s (c_projectId cl)) - {sid} \<and>
         ((\<forall>t. change_text ch \<noteq> JStr t) \<longrightarrow>
            on_change sid (Some ch) s =
              \<lparr>state = s,
               emitted = [socket_to_emit s sid (c_projectId cl) (ChangeMsg (Some ch))],
               raised = None, disconnected = False\<rparr>)"
proof (intro conjI impI)
  show "emitted (on_change sid payload s) =
      [socket_to_emit s sid (c_projectId cl) (ChangeMsg payload)]"
    using assms
    by (simp add: on_change_def Let_def split: option.splits jsval.splits sum.splits)
  show "set (recipients (socket_to_emit s sid (c_projectId cl) (ChangeMsg payload))) =
      set (members s (c_projectId cl)) - {sid}"
    by (simp add: socket_to_emit_def)
  assume "\<forall>t. change_text ch \<noteq> JStr t"
  then show "on_change sid (Some ch) s =
      \<lparr>state = s, emitted = [socket_to_emit s sid (c_projectId cl) (ChangeMsg (Some ch))],
       raised = None, disconnected = False\<rparr>"
    using assms by (cases "change_text ch") (simp_all add: on_change_def)
qed

theorem change_relay_independent_of_update_example:
  "on_change ''s1'' (Some \<lparr>change_range = None, change_text = JNum 7\<rparr>)
     (state (connection (\<lambda>_. Some (JObj [])) 5 ''s2''
        \<lparr>q_projectId = Some ''p'', q_userId = Some ''v'', q_profile = Some ''{}''\<rparr>
        (one_room ''abc''))) =
   \<lparr>state = state (connection (\<lambda>_. Some (JObj [])) 5 ''s2''
        \<lparr>q_projectId = Some ''p'', q_userId = Some ''v'', q_profile = Some ''{}''\<rparr>
        (one_room ''abc'')),
    emitted = [\<lparr>to_room = ''p'', recipients = [''s2''],
                message = ChangeMsg (Some \<lparr>change_range = None, change_text = JNum 7\<rparr>)\<rparr>],
    raised = None, disconnected = False\<rparr> \<and>
   map content (objects (state (connection (\<lambda>_. Some (JObj [])) 5 ''s2''
        \<lparr>q_projectId = Some ''p'', q_userId = Some ''v'', q_profile = Some ''{}''\<rparr>
        (one_room ''abc'')))) = [''abc'']"
  using change_relay_independent_of_update [of
      "state (connection (\<lambda>_. Some (JObj [])) 5 ''s2''
        \<lparr>q_projectId = Some ''p'', q_userId = Some ''v'', q_profile = Some ''{}''\<rparr>
        (one_room ''abc''))" "''s1''"
      "\<lparr>c_projectId = ''p'', c_userId = ''u'', c_room = 0\<rparr>"
      "Some \<lparr>change_range = None, change_text = JNum 7\<rparr>"
      "\<lparr>change_range = None, change_text = JNum 7\<rparr>"]
  by (simp add: one_room_def connection_def io_to_emit_def socket_to_emit_def members_def
      Let_def)

section \<open>Who receives a broadcast (C8)\<close>

text \<open>
  C8. In a state where room membership and handlers agree, and for an event of a
  socket with an id of its own: every message that the handler emits goes to all the
  sockets that listen to its room, the participants of the room among them, and to no
  other socket; a change event goes to all of them but its origin, which is a
  participant of the room, and a presence snapshot to all of them, the origin included
  when the event is a join or a cursor update (after a disconnect the origin is no
  participant any more). And the messages are sent: a change event of an attached
  socket is relayed, the payload unchanged, to its room; an accepted join whose profile
  parses, a cursor update of an attached socket whose user has a presence record (as in
  every consistent state), and the disconnect of an attached socket each send one
  presence snapshot to the room.
\<close>

theorem broadcast_recipients:
  assumes "attached s" and "fresh_socket s ev"
  shows "(\<forall>em \<in> set (emitted (step JSON_parse now ev s)).
           (case message em of
              ChangeMsg payload \<Rightarrow>
                set (recipients em) =
                  listeners (state (step JSON_parse now ev s)) (to_room em) - {origin ev} \<and>
                participants (state (step JSON_parse now ev s)) (to_room em) - {origin ev}
                  \<subseteq> set (recipients em) \<and>
                origin ev \<in> participants (state (step JSON_parse now ev s)) (to_room em)
            | Presence ps \<Rightarrow>
                set (recipients em) =
                  listeners (state (step JSON_parse now ev s)) (to_room em) \<and>
                participants (state (step JSON_parse now ev s)) (to_room em)
                  \<subseteq> set (recipients em) \<and>
                (origin ev \<in> set (recipients em) \<or> (\<exists>sid. ev = Disconnect sid)))) \<and>
         (\<forall>sid payload cl. ev = ChangeEv sid payload \<and> handlers s sid = Some cl \<longrightarrow>
            relayed (step JSON_parse now ev s) (c_projectId cl) payload) \<and>
         (\<forall>sid q pid uid prof p. ev = Connect sid q \<and> q_projectId q = Some pid \<and>
            q_userId q = Some uid \<and> q_profile q = Some prof \<and> pid \<noteq> [] \<and> uid \<noteq> [] \<and>
            prof \<noteq> [] \<and> JSON_parse prof = Some p \<longrightarrow>
            announced (step JSON_parse now ev s) pid) \<and>
         (\<forall>sid upd cl. ev = Cursor sid (Some upd) \<and> handlers s sid = Some cl \<and>
            (consistent s \<or> map_of (users (objects s ! c_room cl)) (c_userId cl) \<noteq> None) \<longrightarrow>
            announced (step JSON_parse now ev s) (c_projectId cl)) \<and>
         (\<forall>sid cl. ev = Disconnect sid \<and> handlers s sid = Some cl \<longrightarrow>
            announced (step JSON_parse now ev s) (c_projectId cl))"
proof (intro conjI allI impI ballI)
  fix em
  assume em: "em \<in> set (emitted (step JSON_parse now ev s))"
  let ?s' = "state (step JSON_parse now ev s)"
  have sub: "participants ?s' p - X \<subseteq> listeners ?s' p - X" for p X
    using participants_listeners [of ?s' p] by blast
  show "case message em of
          Presence ps \<Rightarrow>
            set (recipients em) = listeners ?s' (to_room em) \<and>
            participants ?s' (to_room em) \<subseteq> set (recipients em) \<and>
            (origin ev \<in> set (recipients em) \<or> (\<exists>sid. ev = Disconnect sid))
        | ChangeMsg payload \<Rightarrow>
            set (recipients em) = listeners ?s' (to_room em) - {origin ev} \<and>
            participants ?s' (to_room em) - {origin ev} \<subseteq> set (recipients em) \<and>
            origin ev \<in> participants ?s' (to_room em)"
  proof (cases ev)
    case (Connect sid q)
    have fresh: "handlers s sid = None"
      using assms(2) Connect by (simp add: fresh_socket_def)
    have "em \<in> set (emitted (connection JSON_parse now sid q s))"
      using em Connect by simp
    from recipients_connection [OF assms(1) fresh this]
    obtain ps where "message em = Presence ps"
      and "set (recipients em) =
        listeners (state (connection JSON_parse now sid q s)) (to_room em)"
      and "sid \<in> set (recipients em)"
      by blast
    then show ?thesis
      using participants_listeners [of "state (connection JSON_parse now sid q s)" "to_room em"]
      by (simp add: Connect)
  next
    case (Cursor sid payload)
    have "em \<in> set (emitted (on_cursor now sid payload s))"
      using em Cursor by simp
    from recipients_on_cursor [OF assms(1) this]
    obtain ps where "message em = Presence ps"
      and "set (recipients em) =
        listeners (state (on_cursor now sid payload s)) (to_room em)"
      and "sid \<in> set (recipients em)"
      by blast
    then show ?thesis
      using participants_listeners [of "state (on_cursor now sid payload s)" "to_room em"]
      by (simp add: Cursor)
  next
    case (ChangeEv sid payload)
    have "em \<in> set (emitted (on_change sid payload s))"
      using em ChangeEv by simp
    from recipients_on_change [OF assms(1) this]
    have "message em = ChangeMsg payload"
      and "set (recipients em) =
        listeners (state (on_change sid payload s)) (to_room em) - {sid}"
      and "sid \<in> participants (state (on_change sid payload s)) (to_room em)"
      by blast+
    then show ?thesis
      using sub [of "to_room em" "{sid}"] by (simp add: ChangeEv)
  next
    case (Disconnect sid)
    have "em \<in> set (emitted (on_disconnect sid s))"
      using em Disconnect by simp
    from recipients_on_disconnect [OF assms(1) this]
    obtain ps where "message em = Presence ps"
      and "set (recipients em) =
        listeners (state (on_disconnect sid s)) (to_room em)"
      by blast
    then show ?thesis
      using participants_listeners [of "state (on_disconnect sid s)" "to_room em"]
      by (simp add: Disconnect)
  qed
next
  fix sid payload cl
  assume "ev = ChangeEv sid payload \<and> handlers s sid = Some cl"
  then show "relayed (step JSON_parse now ev s) (c_projectId cl) payload"
    by (simp add: relayed_on_change)
next
  fix sid q pid uid prof p
  assume "ev = Connect sid q \<and> q_projectId q = Some pid \<and>
            q_userId q = Some uid \<and> q_profile q = Some prof \<and> pid \<noteq> [] \<and> uid \<noteq> [] \<and>
            prof \<noteq> [] \<and> JSON_parse prof = Some p"
  then show "announced (step JSON_parse now ev s) pid"
    using announced_connection [of q pid uid prof JSON_parse p now sid s] by simp
next
  fix sid upd cl
  assume a: "ev = Cursor sid (Some upd) \<and> handlers s sid = Some cl \<and>
            (consistent s \<or> map_of (users (objects s ! c_room cl)) (c_userId cl) \<noteq> None)"
  then have "map_of (users (objects s ! c_room cl)) (c_userId cl) \<noteq> None"
    using consistent_has_record [of s sid cl] by blast
  then show "announced (step JSON_parse now ev s) (c_projectId cl)"
    using a by (simp add: announced_on_cursor)
next
  fix sid cl
  assume "ev = Disconnect sid \<and> handlers s sid = Some cl"
  then show "announced (step JSON_parse now ev s) (c_projectId cl)"
    by (simp add: announced_on_disconnect)
qed

theorem broadcast_recipients_example:
  "attached (state (connection (\<lambda>_. Some (JObj [])) 5 ''s2''
      \<lparr>q_projectId = Some ''p'', q_userId = Some ''v'', q_profile = Some ''{}''\<rparr>
      (one_room ''abc''))) \<and>
   announced (step (\<lambda>_. Some (JObj [])) 6
      (Cursor ''s1'' (Some \<lparr>cu_position = JNum 3, cu_selection = JUndefined\<rparr>))
      (state (connection (\<lambda>_. Some (JObj [])) 5 ''s2''
        \<lparr>q_projectId = Some ''p'', q_userId = Some ''v'', q_profile = Some ''{}''\<rparr>
        (one_room ''abc'')))) ''p'' \<and>
   map recipients (emitted (step (\<lambda>_. Some (JObj [])) 6
      (Cursor ''s1'' (Some \<lparr>cu_position = JNum 3, cu_selection = JUndefined\<rparr>))
      (state (connection (\<lambda>_. Some (JObj [])) 5 ''s2''
        \<lparr>q_projectId = Some ''p'', q_userId = Some ''v'', q_profile = Some ''{}''\<rparr>
        (one_room ''abc''))))) = [[''s2'', ''s1'']] \<and>
   listeners (state (step (\<lambda>_. Some (JObj [])) 6
      (Cursor ''s1'' (Some \<lparr>cu_position = JNum 3, cu_selection = JUndefined\<rparr>))
      (state (connection (\<lambda>_. Some (JObj [])) 5 ''s2''
        \<lparr>q_projectId = Some ''p'', q_userId = Some ''v'', q_profile = Some ''{}''\<rparr>
        (one_room ''abc''))))) ''p'' = {''s1'', ''s2''} \<and>
   relayed (step (\<lambda>_. Some (JObj [])) 7
      (ChangeEv ''s1'' (Some \<lparr>change_range = None, change_text = JNum 7\<rparr>))
      (state (connection (\<lambda>_. Some (JObj [])) 5 ''s2''
        \<lparr>q_projectId = Some ''p'', q_userId = Some ''v'', q_profile = Some ''{}''\<rparr>
        (one_room ''abc'')))) ''p'' (Some \<lparr>change_range = None, change_text = JNum 7\<rparr>) \<and>
   map recipients (emitted (step (\<lambda>_. Some (JObj [])) 7
      (ChangeEv ''s1'' (Some \<lparr>change_range = None, change_text = JNum 7\<rparr>))
      (state (connection (\<lambda>_. Some (JObj [])) 5 ''s2''
        \<lparr>q_projectId = Some ''p'', q_userId = Some ''v'', q_profile = Some ''{}''\<rparr>
        (one_room ''abc''))))) = [[''s2'']] \<and>
   announced (step (\<lambda>_. Some (JObj [])) 8 (Disconnect ''s1'')
      (state (connection (\<lambda>_. Some (JObj [])) 5 ''s2''
        \<lparr>q_projectId = Some ''p'', q_userId = Some ''v'', q_profile = Some ''{}''\<rparr>
        (one_room ''abc'')))) ''p'' \<and>
   map recipients (emitted (step (\<lambda>_. Some (JObj [])) 8 (Disconnect ''s1'')
      (state (connection (\<lambda>_. Some (JObj [])) 5 ''s2''
        \<lparr>q_projectId = Some ''p'', q_userId = Some ''v'', q_profile = Some ''{}''\<rparr>
        (one_room ''abc''))))) = [[''s2'']]"
proof -
  let ?P = "\<lambda>_::string. Some (JObj [])"
  let ?s = "state (connection ?P 5 ''s2''
      \<lparr>q_projectId = Some ''p'', q_userId = Some ''v'', q_profile = Some ''{}''\<rparr>
      (one_room ''abc''))"
  let ?ev = "Cursor ''s1'' (Some \<lparr>cu_position = JNum 3, cu_selection = JUndefined\<rparr>)"
  let ?ch = "\<lparr>change_range = None, change_text = JNum 7\<rparr>"
  let ?cl = "\<lparr>c_projectId = ''p'', c_userId = ''u'', c_room = 0\<rparr>"
  have att: "attached ?s"
    by (auto simp: attached_def one_room_def connection_def Let_def split: if_splits)
  have fresh: "fresh_socket ?s ?ev" "fresh_socket ?s (ChangeEv ''s1'' (Some ?ch))"
      "fresh_socket ?s (Disconnect ''s1'')"
    by (simp_all add: fresh_socket_def)
  have h: "handlers ?s ''s1'' = Some ?cl"
    by (simp add: one_room_def connection_def Let_def)
  have rec: "map_of (users (objects ?s ! c_room ?cl)) (c_userId ?cl) \<noteq> None"
    by (simp add: one_room_def connection_def Let_def)
  have rs: "map recipients (emitted (step ?P 6 ?ev ?s)) = [[''s2'', ''s1'']]"
    by (simp add: one_room_def connection_def on_cursor_def io_to_emit_def members_def Let_def)
  have rs_change: "map recipients (emitted (step ?P 7 (ChangeEv ''s1'' (Some ?ch)) ?s)) =
      [[''s2'']]"
    by (simp add: one_room_def connection_def on_change_def socket_to_emit_def members_def
        Let_def)
  have rs_leave: "map recipients (emitted (step ?P 8 (Disconnect ''s1'') ?s)) = [[''s2'']]"
    by (simp add: one_room_def connection_def on_disconnect_def io_to_emit_def members_def
        Let_def)
  note inst = broadcast_recipients [OF att fresh(1), of ?P 6]
  note all = inst [THEN conjunct1]
  note cur = inst [THEN conjunct2, THEN conjunct2, THEN conjunct2, THEN conjunct1, rule_format,
      of "''s1''" "\<lparr>cu_position = JNum 3, cu_selection = JUndefined\<rparr>" ?cl]
  have ann: "announced (step ?P 6 ?ev ?s) ''p''"
    using cur h rec by simp
  then obtain rs' ps where em: "emitted (step ?P 6 ?ev ?s) =
      [\<lparr>to_room = ''p'', recipients = rs', message = Presence ps\<rparr>]"
    unfolding announced_def by blast
  have rs': "rs' = [''s2'', ''s1'']" using rs unfolding em by simp
  have "set rs' = listeners (state (step ?P 6 ?ev ?s)) ''p''"
    using all unfolding em by simp
  then have ls: "listeners (state (step ?P 6 ?ev ?s)) ''p'' = {''s1'', ''s2''}"
    unfolding rs' by auto
  note change = broadcast_recipients [OF att fresh(2), of ?P 7, THEN conjunct2, THEN conjunct1,
      rule_format, of "''s1''" "Some ?ch" ?cl]
  have rel: "relayed (step ?P 7 (ChangeEv ''s1'' (Some ?ch)) ?s) ''p'' (Some ?ch)"
    using change h by simp
  note leave = broadcast_recipients [OF att fresh(3), of ?P 8, THEN conjunct2, THEN conjunct2,
      THEN conjunct2, THEN conjunct2, rule_format, of "''s1''" ?cl]
  have gone: "announced (step ?P 8 (Disconnect ''s1'') ?s) ''p''"
    using leave h by simp
  from att ann rs ls rel rs_change gone rs_leave show ?thesis by blast
qed

section \<open>Presence broadcasts (C5)\<close>

text \<open>
  C5, as the code has it. From a consistent state, in which every user has at most one
  socket attached to a room, every event of a socket with an id of its own, a join being
  one of a user who has no socket attached to the room yet, leaves a consistent state,
  and every presence message that the handler emits is complete in the state it leaves:
  it lists the presence records of the room registered for the project id, one record for
  each user who is attached to the room. Such a message is emitted, to the room, on each
  of the three occasions: an accepted join whose profile parses emits one that holds the
  record of the user who joined; a cursor update of an attached socket emits one that
  holds the record of its user with the cursor, the selection and the time of the update;
  a leave of an attached socket emits one that holds no record of the user who left. The
  initial state is consistent.
\<close>

theorem presence_broadcast_complete:
  assumes "consistent s" and "fresh_socket s ev" and "single_connection s ev"
  shows "consistent (state (step JSON_parse now ev s)) \<and>
         (\<forall>em \<in> set (emitted (step JSON_parse now ev s)).
            presence_complete (state (step JSON_parse now ev s)) em) \<and>
         (\<forall>sid q pid uid prof p.
            ev = Connect sid q \<and> q_projectId q = Some pid \<and> q_userId q = Some uid \<and>
            q_profile q = Some prof \<and> accepted q \<and> JSON_parse prof = Some p \<longrightarrow>
            (\<exists>rs ps. emitted (step JSON_parse now ev s) =
               [\<lparr>to_room = pid, recipients = rs, message = Presence ps\<rparr>] \<and>
               joined_user uid p now \<in> set ps)) \<and>
         (\<forall>sid upd cl.
            ev = Cursor sid (Some upd) \<and> handlers s sid = Some cl \<longrightarrow>
            (\<exists>rs ps u. emitted (step JSON_parse now ev s) =
               [\<lparr>to_room = c_projectId cl, recipients = rs, message = Presence ps\<rparr>] \<and>
               u \<in> set ps \<and> userId u = c_userId cl \<and> cursor u = cu_position upd \<and>
               selection u = cu_selection upd \<and> lastActive u = now)) \<and>
         (\<forall>sid cl.
            ev = Disconnect sid \<and> handlers s sid = Some cl \<longrightarrow>
            (\<exists>rs ps. emitted (step JSON_parse now ev s) =
               [\<lparr>to_room = c_projectId cl, recipients = rs, message = Presence ps\<rparr>] \<and>
               c_userId cl \<notin> userId ` set ps))"
proof (intro conjI allI impI)
  show "consistent (state (step JSON_parse now ev s))"
    using assms by (rule consistent_step)
  show "\<forall>em \<in> set (emitted (step JSON_parse now ev s)).
      presence_complete (state (step JSON_parse now ev s)) em"
  proof
    fix em
    assume em: "em \<in> set (emitted (step JSON_parse now ev s))"
    show "presence_complete (state (step JSON_parse now ev s)) em"
    proof (cases ev)
      case (Connect sid q)
      then show ?thesis
        using assms em by (simp add: fresh_socket_def presence_connection)
    next
      case (Cursor sid payload)
      then show ?thesis using assms(1) em by (simp add: presence_on_cursor)
    next
      case (ChangeEv sid payload)
      then show ?thesis using em by (simp add: presence_on_change)
    next
      case (Disconnect sid)
      then show ?thesis using assms(1) em by (simp add: presence_on_disconnect)
    qed
  qed
next
  fix sid q pid uid prof p
  assume a: "ev = Connect sid q \<and> q_projectId q = Some pid \<and> q_userId q = Some uid \<and>
      q_profile q = Some prof \<and> accepted q \<and> JSON_parse prof = Some p"
  then have ne: "pid \<noteq> []" "uid \<noteq> []" "prof \<noteq> []"
    by (auto simp: accepted_def)
  show "\<exists>rs ps. emitted (step JSON_parse now ev s) =
      [\<lparr>to_room = pid, recipients = rs, message = Presence ps\<rparr>] \<and>
      joined_user uid p now \<in> set ps"
    using join_snapshot [where JSON_parse = JSON_parse and prof = prof and q = q
        and pid = pid and uid = uid and p = p and now = now and sid = sid and s = s] a ne
    by simp
next
  fix sid upd cl
  assume a: "ev = Cursor sid (Some upd) \<and> handlers s sid = Some cl"
  show "\<exists>rs ps u. emitted (step JSON_parse now ev s) =
      [\<lparr>to_room = c_projectId cl, recipients = rs, message = Presence ps\<rparr>] \<and>
      u \<in> set ps \<and> userId u = c_userId cl \<and> cursor u = cu_position upd \<and>
      selection u = cu_selection upd \<and> lastActive u = now"
    using cursor_snapshot [OF assms(1), of sid cl now upd] a by simp
next
  fix sid cl
  assume a: "ev = Disconnect sid \<and> handlers s sid = Some cl"
  show "\<exists>rs ps. emitted (step JSON_parse now ev s) =
      [\<lparr>to_room = c_projectId cl, recipients = rs, message = Presence ps\<rparr>] \<and>
      c_userId cl \<notin> userId ` set ps"
    using leave_snapshot [OF assms(1), of sid cl] a by simp
qed

theorem presence_broadcast_complete_example:
  "consistent (one_room ''abc'') \<and>
   emitted (step (\<lambda>_. Some (JObj [])) 5
      (Connect ''s2'' \<lparr>q_projectId = Some ''p'', q_userId = Some ''v'', q_profile = Some ''{}''\<rparr>)
      (one_room ''abc'')) =
     [\<lparr>to_room = ''p'', recipients = [''s2'', ''s1''],
       message = Presence [joined_user ''u'' (JObj []) 0, joined_user ''v'' (JObj []) 5]\<rparr>] \<and>
   emitted (step (\<lambda>_. Some (JObj [])) 6
      (Cursor ''s1'' (Some \<lparr>cu_position = JNum 3, cu_selection = JUndefined\<rparr>))
      (state (step (\<lambda>_. Some (JObj [])) 5
        (Connect ''s2'' \<lparr>q_projectId = Some ''p'', q_userId = Some ''v'', q_profile = Some ''{}''\<rparr>)
        (one_room ''abc'')))) =
     [\<lparr>to_room = ''p'', recipients = [''s2'', ''s1''],
       message = Presence [(joined_user ''u'' (JObj []) 6)\<lparr>cursor := JNum 3\<rparr>,
         joined_user ''v'' (JObj []) 5]\<rparr>] \<and>
   connected_users (state (step (\<lambda>_. Some (JObj [])) 6
      (Cursor ''s1'' (Some \<lparr>cu_position = JNum 3, cu_selection = JUndefined\<rparr>))
      (state (step (\<lambda>_. Some (JObj [])) 5
        (Connect ''s2'' \<lparr>q_projectId = Some ''p'', q_userId = Some ''v'', q_profile = Some ''{}''\<rparr>)
        (one_room ''abc''))))) ''p'' = {''u'', ''v''} \<and>
   emitted (step (\<lambda>_. Some (JObj [])) 7 (Disconnect ''s1'')
      (state (step (\<lambda>_. Some (JObj [])) 5
        (Connect ''s2'' \<lparr>q_projectId = Some ''p'', q_userId = Some ''v'', q_profile = Some ''{}''\<rparr>)
        (one_room ''abc'')))) =
     [\<lparr>to_room = ''p'', recipients = [''s2''],
       message = Presence [joined_user ''v'' (JObj []) 5]\<rparr>] \<and>
   connected_users (state (step (\<lambda>_. Some (JObj [])) 7 (Disconnect ''s1'')
      (state (step (\<lambda>_. Some (JObj [])) 5
        (Connect ''s2'' \<lparr>q_projectId = Some ''p'', q_userId = Some ''v'', q_profile = Some ''{}''\<rparr>)
        (one_room ''abc''))))) ''p'' = {''v''}"
proof -
  let ?join = "Connect ''s2''
      \<lparr>q_projectId = Some ''p'', q_userId = Some ''v'', q_profile = Some ''{}''\<rparr>"
  let ?move = "Cursor ''s1'' (Some \<lparr>cu_position = JNum 3, cu_selection = JUndefined\<rparr>)"
  let ?leave = "Disconnect ''s1''"
  let ?P = "\<lambda>_::string. Some (JObj [])"
  let ?s = "state (step ?P 5 ?join (one_room ''abc''))"
  have c: "consistent (one_room ''abc'')"
    by (auto simp: consistent_def one_room_def connected_users_def split: if_splits)
  have f: "fresh_socket (one_room ''abc'') ?join"
    by (simp add: fresh_socket_def one_room_def)
  have s: "single_connection (one_room ''abc'') ?join"
    by (auto simp: single_connection_def one_room_def connected_users_def split: if_splits)
  have c2: "consistent ?s"
    using presence_broadcast_complete [OF c f s, of ?P 5] by (rule conjunct1)
  have f2: "fresh_socket ?s ?move" "fresh_socket ?s ?leave"
    by (simp_all add: fresh_socket_def)
  have s2: "single_connection ?s ?move" "single_connection ?s ?leave"
    by (simp_all add: single_connection_def)
  have em1: "emitted (step ?P 5 ?join (one_room ''abc'')) =
     [\<lparr>to_room = ''p'', recipients = [''s2'', ''s1''],
       message = Presence [joined_user ''u'' (JObj []) 0, joined_user ''v'' (JObj []) 5]\<rparr>]"
    by (simp add: one_room_def connection_def io_to_emit_def members_def joined_user_def Let_def)
  have em2: "emitted (step ?P 6 ?move ?s) =
     [\<lparr>to_room = ''p'', recipients = [''s2'', ''s1''],
       message = Presence [(joined_user ''u'' (JObj []) 6)\<lparr>cursor := JNum 3\<rparr>,
         joined_user ''v'' (JObj []) 5]\<rparr>]"
    by (simp add: one_room_def connection_def on_cursor_def io_to_emit_def members_def
        joined_user_def Let_def)
  have em3: "emitted (step ?P 7 ?leave ?s) =
     [\<lparr>to_room = ''p'', recipients = [''s2''],
       message = Presence [joined_user ''v'' (JObj []) 5]\<rparr>]"
    by (simp add: one_room_def connection_def on_disconnect_def io_to_emit_def members_def
        joined_user_def Let_def)
  have u2: "connected_users (state (step ?P 6 ?move ?s)) ''p'' = {''u'', ''v''}"
    using presence_broadcast_complete [OF c2 f2(1) s2(1), of ?P 6, THEN conjunct2,
        THEN conjunct1]
    unfolding em2 by (auto simp: presence_complete_def joined_user_def)
  have u3: "connected_users (state (step ?P 7 ?leave ?s)) ''p'' = {''v''}"
    using presence_broadcast_complete [OF c2 f2(2) s2(2), of ?P 7, THEN conjunct2,
        THEN conjunct1]
    unfolding em3 by (auto simp: presence_complete_def joined_user_def)
  from c em1 em2 u2 em3 u3 show ?thesis by blast
qed

text \<open>
  Against C5 as stated: the user u opens two connections to the room p, on the sockets
  s1 and s2, and socket s1 disconnects. The handler deletes the one presence record of u
  and broadcasts an empty presence list to socket s2, whose handlers are still
  registered for u in p (and it removes the room from \<open>rooms\<close>): the broadcast is
  not the set of the connected participants.
\<close>

theorem second_connection_of_a_user:
  "emitted (on_disconnect ''s1'' (state (run (\<lambda>_. Some (JObj []))
      [(0, Connect ''s1'' \<lparr>q_projectId = Some ''p'', q_userId = Some ''u'', q_profile = Some ''{}''\<rparr>),
       (1, Connect ''s2'' \<lparr>q_projectId = Some ''p'', q_userId = Some ''u'', q_profile = Some ''{}''\<rparr>)]
      init))) =
     [\<lparr>to_room = ''p'', recipients = [''s2''], message = Presence []\<rparr>] \<and>
   handlers (state (on_disconnect ''s1'' (state (run (\<lambda>_. Some (JObj []))
      [(0, Connect ''s1'' \<lparr>q_projectId = Some ''p'', q_userId = Some ''u'', q_profile = Some ''{}''\<rparr>),
       (1, Connect ''s2'' \<lparr>q_projectId = Some ''p'', q_userId = Some ''u'', q_profile = Some ''{}''\<rparr>)]
      init)))) ''s2'' = Some \<lparr>c_projectId = ''p'', c_userId = ''u'', c_room = 0\<rparr> \<and>
   \<not> presence_complete (state (on_disconnect ''s1'' (state (run (\<lambda>_. Some (JObj []))
      [(0, Connect ''s1'' \<lparr>q_projectId = Some ''p'', q_userId = Some ''u'', q_profile = Some ''{}''\<rparr>),
       (1, Connect ''s2'' \<lparr>q_projectId = Some ''p'', q_userId = Some ''u'', q_profile = Some ''{}''\<rparr>)]
      init))))
     \<lparr>to_room = ''p'', recipients = [''s2''], message = Presence []\<rparr>"
proof -
  let ?s = "state (run (\<lambda>_. Some (JObj []))
      [(0, Connect ''s1'' \<lparr>q_projectId = Some ''p'', q_userId = Some ''u'', q_profile = Some ''{}''\<rparr>),
       (1, Connect ''s2'' \<lparr>q_projectId = Some ''p'', q_userId = Some ''u'', q_profile = Some ''{}''\<rparr>)]
      init)"
  have em: "emitted (on_disconnect ''s1'' ?s) =
      [\<lparr>to_room = ''p'', recipients = [''s2''], message = Presence []\<rparr>]"
    by (simp add: init_def connection_def on_disconnect_def io_to_emit_def members_def
        quiet_def Let_def)
  have h: "handlers (state (on_disconnect ''s1'' ?s)) ''s2'' =
      Some \<lparr>c_projectId = ''p'', c_userId = ''u'', c_room = 0\<rparr>"
    by (simp add: init_def connection_def on_disconnect_def io_to_emit_def members_def
        quiet_def Let_def)
  have "''u'' \<in> connected_users (state (on_disconnect ''s1'' ?s)) ''p''"
    unfolding connected_users_def using h by force
  then have "\<not> presence_complete (state (on_disconnect ''s1'' ?s))
      \<lparr>to_room = ''p'', recipients = [''s2''], message = Presence []\<rparr>"
    by (auto simp: presence_complete_def)
  with em h show ?thesis by blast
qed

section \<open>The construction of rooms (C6)\<close>

text \<open>
  C6, as the code has it. In a consistent state, in which every user has at most one
  socket attached to a room, exactly the room object that \<open>rooms\<close> has for a project id
  serves the id, and none when \<open>rooms\<close> has none. Every event of a socket with an id of its
  own, a join being one of a user who has no socket attached to the room yet, leaves such
  a state, and it constructs a room object exactly when it is an accepted handshake to
  an id without a room. A join is an accepted handshake whose profile parses. A join to
  an id that has a room raises no error and constructs nothing: \<open>rooms\<close> stays, the room
  keeps its content and its users, to which the record of the user who joined is added,
  every other object is untouched, and the handlers of the socket close over that room.
  A join to an id without a room, which no object served, raises no error and constructs
  exactly one room object, empty but for the user who joined, registered under the id,
  the only one to serve it.
\<close>

theorem join_constructs_at_most_one_room:
  assumes "consistent s" and "fresh_socket s ev" and "single_connection s ev"
  shows "(\<forall>p. serving s p = (case rooms s p of Some ref \<Rightarrow> {ref} | None \<Rightarrow> {})) \<and>
         consistent (state (step JSON_parse now ev s)) \<and>
         (\<forall>p. serving (state (step JSON_parse now ev s)) p =
            (case rooms (state (step JSON_parse now ev s)) p of
               Some ref \<Rightarrow> {ref} | None \<Rightarrow> {})) \<and>
         length (objects (state (step JSON_parse now ev s))) =
           length (objects s) + (if constructs s ev then 1 else 0) \<and>
         (\<forall>sid q pid uid prof p ref.
            ev = Connect sid q \<and> q_projectId q = Some pid \<and> q_userId q = Some uid \<and>
            q_profile q = Some prof \<and> accepted q \<and> JSON_parse prof = Some p \<and>
            rooms s pid = Some ref \<longrightarrow>
            raised (step JSON_parse now ev s) = None \<and>
            \<not> disconnected (step JSON_parse now ev s) \<and>
            objects (state (step JSON_parse now ev s)) =
              (objects s)[ref := (objects s ! ref)
                \<lparr>users := users (objects s ! ref) @ [(uid, joined_user uid p now)]\<rparr>] \<and>
            rooms (state (step JSON_parse now ev s)) = rooms s \<and>
            handlers (state (step JSON_parse now ev s)) sid =
              Some \<lparr>c_projectId = pid, c_userId = uid, c_room = ref\<rparr> \<and>
            serving (state (step JSON_parse now ev s)) pid = {ref}) \<and>
         (\<forall>sid q pid uid prof p.
            ev = Connect sid q \<and> q_projectId q = Some pid \<and> q_userId q = Some uid \<and>
            q_profile q = Some prof \<and> accepted q \<and> JSON_parse prof = Some p \<and>
            rooms s pid = None \<longrightarrow>
            raised (step JSON_parse now ev s) = None \<and>
            \<not> disconnected (step JSON_parse now ev s) \<and>
            serving s pid = {} \<and>
            objects (state (step JSON_parse now ev s)) =
              objects s @ [\<lparr>users = [(uid, joined_user uid p now)], content = []\<rparr>] \<and>
            rooms (state (step JSON_parse now ev s)) =
              (rooms s)(pid \<mapsto> length (objects s)) \<and>
            handlers (state (step JSON_parse now ev s)) sid =
              Some \<lparr>c_projectId = pid, c_userId = uid, c_room = length (objects s)\<rparr> \<and>
            serving (state (step JSON_parse now ev s)) pid = {length (objects s)})"
proof -
  let ?out = "step JSON_parse now ev s"
  have c': "consistent (state ?out)"
    using assms by (rule consistent_step)
  have sv: "serving s p = (case rooms s p of Some ref \<Rightarrow> {ref} | None \<Rightarrow> {})" for p
    using assms(1) by (rule serving_consistent)
  have sv': "serving (state ?out) p =
      (case rooms (state ?out) p of Some ref \<Rightarrow> {ref} | None \<Rightarrow> {})" for p
    using c' by (rule serving_consistent)
  have len: "length (objects (state ?out)) =
      length (objects s) + (if constructs s ev then 1 else 0)"
    by (rule objects_length_step)
  have known: "raised ?out = None \<and> \<not> disconnected ?out \<and>
      objects (state ?out) =
        (objects s)[ref := (objects s ! ref)
          \<lparr>users := users (objects s ! ref) @ [(uid, joined_user uid p now)]\<rparr>] \<and>
      rooms (state ?out) = rooms s \<and>
      handlers (state ?out) sid = Some \<lparr>c_projectId = pid, c_userId = uid, c_room = ref\<rparr> \<and>
      serving (state ?out) pid = {ref}"
    if a: "ev = Connect sid q \<and> q_projectId q = Some pid \<and> q_userId q = Some uid \<and>
      q_profile q = Some prof \<and> accepted q \<and> JSON_parse prof = Some p \<and>
      rooms s pid = Some ref"
    for sid q pid uid prof p ref
  proof -
    have ne: "pid \<noteq> []" "uid \<noteq> []" "prof \<noteq> []"
      using a by (auto simp: accepted_def)
    have q: "q_projectId q = Some pid" "q_userId q = Some uid" "q_profile q = Some prof"
      and p: "JSON_parse prof = Some p" and r: "rooms s pid = Some ref"
      and ev: "ev = Connect sid q"
      using a by simp_all
    note join = connection_accepted(1) [where JSON_parse = JSON_parse and prof = prof,
        OF q ne p r, of now sid]
    have "uid \<notin> connected_users s pid"
      using assms(3) q by (simp add: single_connection_def ev)
    then have "uid \<notin> fst ` set (users (objects s ! ref))"
      using consistentD(4) [OF assms(1) r] by simp
    then have up: "AList.update uid (joined_user uid p now) (users (objects s ! ref)) =
        users (objects s ! ref) @ [(uid, joined_user uid p now)]"
      by (rule update_absent)
    have "rooms (state ?out) pid = Some ref"
      by (simp add: ev join r)
    then have "serving (state ?out) pid = {ref}"
      by (simp add: sv')
    then show ?thesis
      by (simp add: ev join up)
  qed
  have unknown: "raised ?out = None \<and> \<not> disconnected ?out \<and> serving s pid = {} \<and>
      objects (state ?out) =
        objects s @ [\<lparr>users = [(uid, joined_user uid p now)], content = []\<rparr>] \<and>
      rooms (state ?out) = (rooms s)(pid \<mapsto> length (objects s)) \<and>
      handlers (state ?out) sid =
        Some \<lparr>c_projectId = pid, c_userId = uid, c_room = length (objects s)\<rparr> \<and>
      serving (state ?out) pid = {length (objects s)}"
    if a: "ev = Connect sid q \<and> q_projectId q = Some pid \<and> q_userId q = Some uid \<and>
      q_profile q = Some prof \<and> accepted q \<and> JSON_parse prof = Some p \<and>
      rooms s pid = None"
    for sid q pid uid prof p
  proof -
    have ne: "pid \<noteq> []" "uid \<noteq> []" "prof \<noteq> []"
      using a by (auto simp: accepted_def)
    have q: "q_projectId q = Some pid" "q_userId q = Some uid" "q_profile q = Some prof"
      and p: "JSON_parse prof = Some p" and r: "rooms s pid = None"
      and ev: "ev = Connect sid q"
      using a by simp_all
    note join = connection_accepted(2) [where JSON_parse = JSON_parse and prof = prof,
        OF q ne p r, of now sid]
    have "rooms (state ?out) pid = Some (length (objects s))"
      by (simp add: ev join)
    then have "serving (state ?out) pid = {length (objects s)}"
      by (simp add: sv')
    moreover have "serving s pid = {}"
      by (simp add: sv r)
    ultimately show ?thesis
      by (simp add: ev join)
  qed
  show ?thesis
    using c' sv sv' len known unknown by blast
qed

theorem join_constructs_at_most_one_room_example:
  "consistent (one_room ''abc'') \<and>
   objects (state (step (\<lambda>_. Some (JObj [])) 5
      (Connect ''s2'' \<lparr>q_projectId = Some ''p'', q_userId = Some ''v'', q_profile = Some ''{}''\<rparr>)
      (one_room ''abc''))) =
     [\<lparr>users = [(''u'', joined_user ''u'' (JObj []) 0), (''v'', joined_user ''v'' (JObj []) 5)],
       content = ''abc''\<rparr>] \<and>
   serving (state (step (\<lambda>_. Some (JObj [])) 5
      (Connect ''s2'' \<lparr>q_projectId = Some ''p'', q_userId = Some ''v'', q_profile = Some ''{}''\<rparr>)
      (one_room ''abc''))) ''p'' = {0} \<and>
   objects (state (step (\<lambda>_. Some (JObj [])) 5
      (Connect ''s2'' \<lparr>q_projectId = Some ''z'', q_userId = Some ''v'', q_profile = Some ''{}''\<rparr>)
      (one_room ''abc''))) =
     [\<lparr>users = [(''u'', joined_user ''u'' (JObj []) 0)], content = ''abc''\<rparr>,
      \<lparr>users = [(''v'', joined_user ''v'' (JObj []) 5)], content = []\<rparr>] \<and>
   serving (one_room ''abc'') ''z'' = {} \<and>
   serving (state (step (\<lambda>_. Some (JObj [])) 5
      (Connect ''s2'' \<lparr>q_projectId = Some ''z'', q_userId = Some ''v'', q_profile = Some ''{}''\<rparr>)
      (one_room ''abc''))) ''z'' = {1}"
proof -
  let ?P = "\<lambda>_::string. Some (JObj [])"
  let ?qp = "\<lparr>q_projectId = Some ''p'', q_userId = Some ''v'', q_profile = Some ''{}''\<rparr>"
  let ?qz = "\<lparr>q_projectId = Some ''z'', q_userId = Some ''v'', q_profile = Some ''{}''\<rparr>"
  have c: "consistent (one_room ''abc'')"
    by (auto simp: consistent_def one_room_def connected_users_def split: if_splits)
  have f: "fresh_socket (one_room ''abc'') (Connect ''s2'' ?qp)"
      "fresh_socket (one_room ''abc'') (Connect ''s2'' ?qz)"
    by (simp_all add: fresh_socket_def one_room_def)
  have s: "single_connection (one_room ''abc'') (Connect ''s2'' ?qp)"
      "single_connection (one_room ''abc'') (Connect ''s2'' ?qz)"
    by (auto simp: single_connection_def one_room_def connected_users_def split: if_splits)
  note known = join_constructs_at_most_one_room [OF c f(1) s(1), of ?P 5,
      THEN conjunct2, THEN conjunct2, THEN conjunct2, THEN conjunct2, THEN conjunct1,
      rule_format, of "''s2''" ?qp "''p''" "''v''" "''{}''" "JObj []" 0]
  note unknown = join_constructs_at_most_one_room [OF c f(2) s(2), of ?P 5,
      THEN conjunct2, THEN conjunct2, THEN conjunct2, THEN conjunct2, THEN conjunct2,
      rule_format, of "''s2''" ?qz "''z''" "''v''" "''{}''" "JObj []"]
  have k: "objects (state (step ?P 5 (Connect ''s2'' ?qp) (one_room ''abc''))) =
      [\<lparr>users = [(''u'', joined_user ''u'' (JObj []) 0), (''v'', joined_user ''v'' (JObj []) 5)],
        content = ''abc''\<rparr>] \<and>
      serving (state (step ?P 5 (Connect ''s2'' ?qp) (one_room ''abc''))) ''p'' = {0}"
    using known by (simp add: accepted_def) (simp add: one_room_def joined_user_def)
  have u: "objects (state (step ?P 5 (Connect ''s2'' ?qz) (one_room ''abc''))) =
      [\<lparr>users = [(''u'', joined_user ''u'' (JObj []) 0)], content = ''abc''\<rparr>,
       \<lparr>users = [(''v'', joined_user ''v'' (JObj []) 5)], content = []\<rparr>] \<and>
      serving (one_room ''abc'') ''z'' = {} \<and>
      serving (state (step ?P 5 (Connect ''s2'' ?qz) (one_room ''abc''))) ''z'' = {1}"
    using unknown by (simp add: accepted_def) (simp add: one_room_def joined_user_def)
  from c k u show ?thesis by blast
qed

text \<open>
  Against C6 as stated. The user u opens two connections to the project p, on the
  sockets s1 and s2, types abc, and closes the first connection: the handler deletes the
  one presence record of u, finds the room empty and removes it from \<open>rooms\<close>, while the
  handlers of s2 still close over it. The join of the user w then constructs a second
  room object for p, and the two serve the id at once, s2 on the first, with the
  content abc, and s3 on the second. And an accepted handshake to an unknown id
  whose profile is not JSON ends in a SyntaxError, after the room has been constructed
  and registered and the socket has joined it.
\<close>

theorem second_room_for_a_served_id:
  "raised (run (\<lambda>t. if t = ''{}'' then Some (JObj []) else None)
     [(0, Connect ''s1'' \<lparr>q_projectId = Some ''p'', q_userId = Some ''u'', q_profile = Some ''{}''\<rparr>),
      (1, Connect ''s2'' \<lparr>q_projectId = Some ''p'', q_userId = Some ''u'', q_profile = Some ''{}''\<rparr>),
      (2, ChangeEv ''s2'' (Some \<lparr>change_range =
             Some \<lparr>startLineNumber = 1, startColumn = 1, endLineNumber = 1, endColumn = 1\<rparr>,
           change_text = JStr ''abc''\<rparr>)),
      (3, Disconnect ''s1''),
      (4, Connect ''s3'' \<lparr>q_projectId = Some ''p'', q_userId = Some ''w'', q_profile = Some ''{}''\<rparr>)]
     init) = None \<and>
   map content (objects (state (run (\<lambda>t. if t = ''{}'' then Some (JObj []) else None)
     [(0, Connect ''s1'' \<lparr>q_projectId = Some ''p'', q_userId = Some ''u'', q_profile = Some ''{}''\<rparr>),
      (1, Connect ''s2'' \<lparr>q_projectId = Some ''p'', q_userId = Some ''u'', q_profile = Some ''{}''\<rparr>),
      (2, ChangeEv ''s2'' (Some \<lparr>change_range =
             Some \<lparr>startLineNumber = 1, startColumn = 1, endLineNumber = 1, endColumn = 1\<rparr>,
           change_text = JStr ''abc''\<rparr>)),
      (3, Disconnect ''s1''),
      (4, Connect ''s3'' \<lparr>q_projectId = Some ''p'', q_userId = Some ''w'', q_profile = Some ''{}''\<rparr>)]
     init))) = [''abc'', []] \<and>
   handlers (state (run (\<lambda>t. if t = ''{}'' then Some (JObj []) else None)
     [(0, Connect ''s1'' \<lparr>q_projectId = Some ''p'', q_userId = Some ''u'', q_profile = Some ''{}''\<rparr>),
      (1, Connect ''s2'' \<lparr>q_projectId = Some ''p'', q_userId = Some ''u'', q_profile = Some ''{}''\<rparr>),
      (2, ChangeEv ''s2'' (Some \<lparr>change_range =
             Some \<lparr>startLineNumber = 1, startColumn = 1, endLineNumber = 1, endColumn = 1\<rparr>,
           change_text = JStr ''abc''\<rparr>)),
      (3, Disconnect ''s1''),
      (4, Connect ''s3'' \<lparr>q_projectId = Some ''p'', q_userId = Some ''w'', q_profile = Some ''{}''\<rparr>)]
     init)) =
     [''s2'' \<mapsto> \<lparr>c_projectId = ''p'', c_userId = ''u'', c_room = 0\<rparr>,
      ''s3'' \<mapsto> \<lparr>c_projectId = ''p'', c_userId = ''w'', c_room = 1\<rparr>] \<and>
   serving (state (run (\<lambda>t. if t = ''{}'' then Some (JObj []) else None)
     [(0, Connect ''s1'' \<lparr>q_projectId = Some ''p'', q_userId = Some ''u'', q_profile = Some ''{}''\<rparr>),
      (1, Connect ''s2'' \<lparr>q_projectId = Some ''p'', q_userId = Some ''u'', q_profile = Some ''{}''\<rparr>),
      (2, ChangeEv ''s2'' (Some \<lparr>change_range =
             Some \<lparr>startLineNumber = 1, startColumn = 1, endLineNumber = 1, endColumn = 1\<rparr>,
           change_text = JStr ''abc''\<rparr>)),
      (3, Disconnect ''s1''),
      (4, Connect ''s3'' \<lparr>q_projectId = Some ''p'', q_userId = Some ''w'', q_profile = Some ''{}''\<rparr>)]
     init)) ''p'' = {0, 1} \<and>
   connection (\<lambda>t. if t = ''{}'' then Some (JObj []) else None) 0 ''s1''
     \<lparr>q_projectId = Some ''p'', q_userId = Some ''u'', q_profile = Some ''{''\<rparr> init =
     \<lparr>state = \<lparr>objects = [\<lparr>users = [], content = []\<rparr>], rooms = [''p'' \<mapsto> 0],
               adapter = [(''s1'', ''p'')], handlers = Map.empty\<rparr>,
      emitted = [], raised = Some SyntaxError, disconnected = False\<rparr>"
proof -
  let ?P = "\<lambda>t. if t = ''{}'' then Some (JObj []) else None"
  let ?st = "state (run ?P
     [(0, Connect ''s1'' \<lparr>q_projectId = Some ''p'', q_userId = Some ''u'', q_profile = Some ''{}''\<rparr>),
      (1, Connect ''s2'' \<lparr>q_projectId = Some ''p'', q_userId = Some ''u'', q_profile = Some ''{}''\<rparr>),
      (2, ChangeEv ''s2'' (Some \<lparr>change_range =
             Some \<lparr>startLineNumber = 1, startColumn = 1, endLineNumber = 1, endColumn = 1\<rparr>,
           change_text = JStr ''abc''\<rparr>)),
      (3, Disconnect ''s1''),
      (4, Connect ''s3'' \<lparr>q_projectId = Some ''p'', q_userId = Some ''w'', q_profile = Some ''{}''\<rparr>)]
     init)"
  have st: "?st = \<lparr>objects = [\<lparr>users = [], content = ''abc''\<rparr>,
        \<lparr>users = [(''w'', joined_user ''w'' (JObj []) 4)], content = []\<rparr>],
      rooms = [''p'' \<mapsto> 1],
      adapter = [(''s3'', ''p''), (''s2'', ''p'')],
      handlers = [''s2'' \<mapsto> \<lparr>c_projectId = ''p'', c_userId = ''u'', c_room = 0\<rparr>,
        ''s3'' \<mapsto> \<lparr>c_projectId = ''p'', c_userId = ''w'', c_room = 1\<rparr>]\<rparr>"
    by (simp add: init_def connection_def on_change_def on_disconnect_def quiet_def
        io_to_emit_def socket_to_emit_def members_def applyChange_def index_at_def
        substring_def substring_from_def joined_user_def Let_def fun_upd_twist)
  have r: "raised (run ?P
     [(0, Connect ''s1'' \<lparr>q_projectId = Some ''p'', q_userId = Some ''u'', q_profile = Some ''{}''\<rparr>),
      (1, Connect ''s2'' \<lparr>q_projectId = Some ''p'', q_userId = Some ''u'', q_profile = Some ''{}''\<rparr>),
      (2, ChangeEv ''s2'' (Some \<lparr>change_range =
             Some \<lparr>startLineNumber = 1, startColumn = 1, endLineNumber = 1, endColumn = 1\<rparr>,
           change_text = JStr ''abc''\<rparr>)),
      (3, Disconnect ''s1''),
      (4, Connect ''s3'' \<lparr>q_projectId = Some ''p'', q_userId = Some ''w'', q_profile = Some ''{}''\<rparr>)]
     init) = None"
    by (simp add: init_def connection_def on_change_def on_disconnect_def quiet_def
        io_to_emit_def socket_to_emit_def members_def applyChange_def index_at_def
        substring_def substring_from_def Let_def)
  have sv: "serving ?st ''p'' = {0, 1}"
    unfolding st by (auto simp: serving_def split: if_splits)
  have bad: "connection ?P 0 ''s1''
     \<lparr>q_projectId = Some ''p'', q_userId = Some ''u'', q_profile = Some ''{''\<rparr> init =
     \<lparr>state = \<lparr>objects = [\<lparr>users = [], content = []\<rparr>], rooms = [''p'' \<mapsto> 0],
               adapter = [(''s1'', ''p'')], handlers = Map.empty\<rparr>,
      emitted = [], raised = Some SyntaxError, disconnected = False\<rparr>"
    by (simp add: init_def connection_def Let_def)
  show ?thesis
    using r sv bad unfolding st by simp
qed

section \<open>The end of a room (C7)\<close>

text \<open>
  C7. In a sound state, when the socket that disconnects is the last participant of its
  room (the only socket whose handlers are registered for the project id), the
  disconnect handler discards the room at once: it raises no error, and in the state
  it leaves \<open>rooms\<close> has no room for the id, the id has no participant, and no socket and
  no entry of \<open>rooms\<close> refers to the former room object. This stays so through the events
  that follow, as long as none is a join to the id. The accepted handshake with the
  project id that follows then constructs a new room object, another one than the
  former, registered under the id, whose content is empty and whose users are only the
  presence record of the user who joined (none when the profile does not parse); when
  the profile parses no error is raised and the handlers of the socket that joined
  close over the new object; and still nothing refers to the former room object.
\<close>

theorem last_leave_discards_room:
  assumes "sound s" and "handlers s sid = Some cl"
    and "participants s (c_projectId cl) = {sid}"
    and "list_all (\<lambda>e. \<not> joins (c_projectId cl) (snd e)) evs"
    and "q_projectId q = Some (c_projectId cl)" "q_userId q = Some uid"
    and "q_profile q = Some prof"
    and "c_projectId cl \<noteq> []" "uid \<noteq> []" "prof \<noteq> []"
  shows "raised (on_disconnect sid s) = None \<and>
         discarded (state (on_disconnect sid s)) (c_projectId cl) (c_room cl) \<and>
         discarded (state (run JSON_parse evs (state (on_disconnect sid s))))
           (c_projectId cl) (c_room cl) \<and>
         objects (state (connection JSON_parse now sid' q
             (state (run JSON_parse evs (state (on_disconnect sid s)))))) =
           objects (state (run JSON_parse evs (state (on_disconnect sid s)))) @
             [\<lparr>users = (case JSON_parse prof of
                          Some p \<Rightarrow> [(uid, joined_user uid p now)]
                        | None \<Rightarrow> []),
               content = []\<rparr>] \<and>
         rooms (state (connection JSON_parse now sid' q
             (state (run JSON_parse evs (state (on_disconnect sid s))))))
             (c_projectId cl) =
           Some (length (objects (state (run JSON_parse evs (state (on_disconnect sid s)))))) \<and>
         c_room cl < length (objects (state (run JSON_parse evs (state (on_disconnect sid s))))) \<and>
         (JSON_parse prof \<noteq> None \<longrightarrow>
            raised (connection JSON_parse now sid' q
              (state (run JSON_parse evs (state (on_disconnect sid s))))) = None \<and>
            handlers (state (connection JSON_parse now sid' q
                (state (run JSON_parse evs (state (on_disconnect sid s)))))) sid' =
              Some \<lparr>c_projectId = c_projectId cl, c_userId = uid,
                     c_room = length (objects
                       (state (run JSON_parse evs (state (on_disconnect sid s)))))\<rparr>) \<and>
         (\<forall>sid'' cl'.
            handlers (state (connection JSON_parse now sid' q
              (state (run JSON_parse evs (state (on_disconnect sid s)))))) sid'' = Some cl' \<longrightarrow>
            c_room cl' \<noteq> c_room cl) \<and>
         (\<forall>p. rooms (state (connection JSON_parse now sid' q
              (state (run JSON_parse evs (state (on_disconnect sid s)))))) p \<noteq>
            Some (c_room cl))"
proof -
  let ?s1 = "state (on_disconnect sid s)"
  let ?t = "state (run JSON_parse evs ?s1)"
  let ?t2 = "state (connection JSON_parse now sid' q ?t)"
  have quiet: "raised (on_disconnect sid s) = None"
    using last_participant_gone(6) [OF assms(1-3)] .
  have d1: "discarded ?s1 (c_projectId cl) (c_room cl)"
    using assms(1-3) by (rule last_participant_discarded)
  have dt: "discarded ?t (c_projectId cl) (c_room cl)"
    using d1 assms(4) by (rule discarded_run)
  note gone = discardedD [OF dt]
  note join = join_fresh [where JSON_parse = JSON_parse and now = now and sid = sid',
      OF assms(5-10) gone(1)]
  have ok: "JSON_parse prof \<noteq> None \<longrightarrow>
      raised (connection JSON_parse now sid' q ?t) = None \<and>
      handlers ?t2 sid' =
        Some \<lparr>c_projectId = c_projectId cl, c_userId = uid, c_room = length (objects ?t)\<rparr>"
    by (cases "JSON_parse prof") (simp_all add: join)
  have h2: "c_room cl' \<noteq> c_room cl" if "handlers ?t2 sid'' = Some cl'" for sid'' cl'
    using that gone(4) [of sid'' cl'] gone(3)
    by (cases "JSON_parse prof") (auto simp: join split: if_splits)
  have r2: "rooms ?t2 p \<noteq> Some (c_room cl)" for p
    using gone(5) [of p] gone(3) by (auto simp: join split: if_splits)
  have reg: "rooms ?t2 (c_projectId cl) = Some (length (objects ?t))"
    by (simp add: join)
  show ?thesis
    using quiet d1 dt join(1) reg gone(3) ok h2 r2 by blast
qed

theorem last_leave_discards_room_example:
  "sound (one_room ''abc'') \<and>
   participants (one_room ''abc'') ''p'' = {''s1''} \<and>
   rooms (state (on_disconnect ''s1'' (one_room ''abc''))) = Map.empty \<and>
   handlers (state (on_disconnect ''s1'' (one_room ''abc''))) = Map.empty \<and>
   map content (objects (state (connection (\<lambda>_. Some (JObj [])) 5 ''s2''
      \<lparr>q_projectId = Some ''p'', q_userId = Some ''v'', q_profile = Some ''{}''\<rparr>
      (state (run (\<lambda>_. Some (JObj []))
         [(3, Connect ''s9''
             \<lparr>q_projectId = Some ''z'', q_userId = Some ''w'', q_profile = Some ''{}''\<rparr>)]
         (state (on_disconnect ''s1'' (one_room ''abc''))))))))
     = [''abc'', [], []] \<and>
   map (map fst \<circ> users) (objects (state (connection (\<lambda>_. Some (JObj [])) 5 ''s2''
      \<lparr>q_projectId = Some ''p'', q_userId = Some ''v'', q_profile = Some ''{}''\<rparr>
      (state (run (\<lambda>_. Some (JObj []))
         [(3, Connect ''s9''
             \<lparr>q_projectId = Some ''z'', q_userId = Some ''w'', q_profile = Some ''{}''\<rparr>)]
         (state (on_disconnect ''s1'' (one_room ''abc''))))))))
     = [[], [''w''], [''v'']] \<and>
   rooms (state (connection (\<lambda>_. Some (JObj [])) 5 ''s2''
      \<lparr>q_projectId = Some ''p'', q_userId = Some ''v'', q_profile = Some ''{}''\<rparr>
      (state (run (\<lambda>_. Some (JObj []))
         [(3, Connect ''s9''
             \<lparr>q_projectId = Some ''z'', q_userId = Some ''w'', q_profile = Some ''{}''\<rparr>)]
         (state (on_disconnect ''s1'' (one_room ''abc''))))))) ''p'' = Some 2 \<and>
   handlers (state (connection (\<lambda>_. Some (JObj [])) 5 ''s2''
      \<lparr>q_projectId = Some ''p'', q_userId = Some ''v'', q_profile = Some ''{}''\<rparr>
      (state (run (\<lambda>_. Some (JObj []))
         [(3, Connect ''s9''
             \<lparr>q_projectId = Some ''z'', q_userId = Some ''w'', q_profile = Some ''{}''\<rparr>)]
         (state (on_disconnect ''s1'' (one_room ''abc''))))))) ''s2'' =
     Some \<lparr>c_projectId = ''p'', c_userId = ''v'', c_room = 2\<rparr>"
proof -
  let ?P = "\<lambda>_::string. Some (JObj [])"
  let ?cl = "\<lparr>c_projectId = ''p'', c_userId = ''u'', c_room = 0\<rparr>"
  let ?q = "\<lparr>q_projectId = Some ''p'', q_userId = Some ''v'', q_profile = Some ''{}''\<rparr>"
  let ?evs = "[(3::nat, Connect ''s9''
      \<lparr>q_projectId = Some ''z'', q_userId = Some ''w'', q_profile = Some ''{}''\<rparr>)]"
  let ?t = "state (run ?P ?evs (state (on_disconnect ''s1'' (one_room ''abc''))))"
  have snd: "sound (one_room ''abc'')"
    by (rule soundI) (auto simp: one_room_def split: if_splits)
  have h: "handlers (one_room ''abc'') ''s1'' = Some ?cl"
    by (simp add: one_room_def)
  have last: "participants (one_room ''abc'') (c_projectId ?cl) = {''s1''}"
    by (auto simp: participants_def one_room_def split: if_splits)
  have other: "list_all (\<lambda>e. \<not> joins (c_projectId ?cl) (snd e)) ?evs"
    by (simp add: joins_def)
  have s1: "state (on_disconnect ''s1'' (one_room ''abc'')) =
      \<lparr>objects = [\<lparr>users = [], content = ''abc''\<rparr>], rooms = Map.empty, adapter = [],
       handlers = Map.empty\<rparr>"
    by (simp add: one_room_def on_disconnect_def Let_def)
  have t: "?t = \<lparr>objects = [\<lparr>users = [], content = ''abc''\<rparr>,
        \<lparr>users = [(''w'', joined_user ''w'' (JObj []) 3)], content = []\<rparr>],
      rooms = [''z'' \<mapsto> 1], adapter = [(''s9'', ''z'')],
      handlers = [''s9'' \<mapsto> \<lparr>c_projectId = ''z'', c_userId = ''w'', c_room = 1\<rparr>]\<rparr>"
    unfolding s1
    by (simp add: connection_def quiet_def io_to_emit_def members_def joined_user_def Let_def)
  note inst = last_leave_discards_room [OF snd h last other, where q = ?q and uid = "''v''"
      and prof = "''{}''" and JSON_parse = ?P and now = 5 and sid' = "''s2''"]
  have j: "objects (state (connection ?P 5 ''s2'' ?q ?t)) =
      objects ?t @ [\<lparr>users = [(''v'', joined_user ''v'' (JObj []) 5)], content = []\<rparr>]"
    and r: "rooms (state (connection ?P 5 ''s2'' ?q ?t)) ''p'' = Some (length (objects ?t))"
    and hd: "handlers (state (connection ?P 5 ''s2'' ?q ?t)) ''s2'' =
      Some \<lparr>c_projectId = ''p'', c_userId = ''v'', c_room = length (objects ?t)\<rparr>"
    using inst by simp_all
  have "map content (objects (state (connection ?P 5 ''s2'' ?q ?t))) = [''abc'', [], []]"
    and "map (map fst \<circ> users) (objects (state (connection ?P 5 ''s2'' ?q ?t))) =
      [[], [''w''], [''v'']]"
    and "rooms (state (connection ?P 5 ''s2'' ?q ?t)) ''p'' = Some 2"
    and "handlers (state (connection ?P 5 ''s2'' ?q ?t)) ''s2'' =
      Some \<lparr>c_projectId = ''p'', c_userId = ''v'', c_room = 2\<rparr>"
    unfolding j r hd unfolding t by simp_all
  then show ?thesis
    using snd last by (simp add: s1)
qed

section \<open>Order of the file operations (C4)\<close>

text \<open>
  C4, as the code has it. The shared file system has one queue for all files. After any
  sequence of events, that is, however the calls of \<open>processOperation\<close> interleave with
  the completions: the operations started so far followed by those still in the queue
  are the operations in the order they were enqueued, and so are those on any one path;
  the trace is sequential, one operation being started only when the one before has
  finished or failed; the operations that finished or failed, followed by the one
  being applied, are the ones started; and an event with which an operation finishes
  leaves the write of the operation in the cache. As long as no operation has failed
  and no watcher throws for a pending one, the queue is drained: once the promises that
  are still needed have resolved, the operations that have finished are all the
  operations enqueued, in the order they were enqueued, none has failed, the queue is
  empty and the flag is cleared.
\<close>

theorem operations_applied_in_enqueue_order:
  "started (trace (fs_run evs fs_init)) @ operationQueue (fs_run evs fs_init) = enqueued evs \<and>
   (\<forall>p. on_path p (started (trace (fs_run evs fs_init))) @
          on_path p (operationQueue (fs_run evs fs_init)) = on_path p (enqueued evs)) \<and>
   sequential_from None (trace (fs_run evs fs_init)) \<and>
   in_progress None (trace (fs_run evs fs_init)) = applying (fs_run evs fs_init) \<and>
   settled (trace (fs_run evs fs_init)) @
     (case applying (fs_run evs fs_init) of None \<Rightarrow> [] | Some operation \<Rightarrow> [operation]) =
     started (trace (fs_run evs fs_init)) \<and>
   (\<forall>ev operation.
      trace (fs_run (evs @ [ev]) fs_init) = trace (fs_run evs fs_init) @ [Finished operation] \<longrightarrow>
      written operation (fileCache (fs_run (evs @ [ev]) fs_init))) \<and>
   (failed (trace (fs_run evs fs_init)) = [] \<and> calm (fs_run evs fs_init) \<longrightarrow>
      finished (trace (fs_run (evs @ replicate (needed (fs_run evs fs_init)) Resolved) fs_init)) =
        enqueued evs \<and>
      failed (trace (fs_run (evs @ replicate (needed (fs_run evs fs_init)) Resolved) fs_init)) =
        [] \<and>
      operationQueue (fs_run (evs @ replicate (needed (fs_run evs fs_init)) Resolved) fs_init) =
        [] \<and>
      awaiting (fs_run (evs @ replicate (needed (fs_run evs fs_init)) Resolved) fs_init) =
        None \<and>
      \<not> isProcessing
        (fs_run (evs @ replicate (needed (fs_run evs fs_init)) Resolved) fs_init))"
proof -
  let ?s = "fs_run evs fs_init"
  let ?n = "needed ?s"
  have inv: "queue_inv evs ?s" by (rule queue_inv_run)
  have order: "started (trace ?s) @ operationQueue ?s = enqueued evs"
    using inv by (simp add: queue_inv_def)
  have "on_path p (started (trace ?s)) @ on_path p (operationQueue ?s) =
      on_path p (enqueued evs)" for p
    using arg_cong [OF order, of "on_path p"] by (simp add: on_path_def)
  moreover have "written operation (fileCache (fs_run (evs @ [ev]) fs_init))"
    if "trace (fs_run (evs @ [ev]) fs_init) = trace ?s @ [Finished operation]"
    for ev operation
    using finished_written [OF inv, of ev operation] that by simp
  moreover have "finished (trace (fs_run (evs @ replicate ?n Resolved) fs_init)) =
        enqueued evs \<and>
      failed (trace (fs_run (evs @ replicate ?n Resolved) fs_init)) = [] \<and>
      operationQueue (fs_run (evs @ replicate ?n Resolved) fs_init) = [] \<and>
      awaiting (fs_run (evs @ replicate ?n Resolved) fs_init) = None \<and>
      \<not> isProcessing (fs_run (evs @ replicate ?n Resolved) fs_init)"
    if ok: "failed (trace ?s) = [] \<and> calm ?s"
  proof -
    have r: "fs_run (evs @ replicate ?n Resolved) fs_init = fs_run (replicate ?n Resolved) ?s"
      by (rule fs_run_append)
    have d: "queue_inv (evs @ replicate ?n Resolved) (fs_run (replicate ?n Resolved) ?s) \<and>
        failed (trace (fs_run (replicate ?n Resolved) ?s)) = [] \<and>
        needed (fs_run (replicate ?n Resolved) ?s) = 0"
      using inv ok by (intro drained) simp_all
    show ?thesis
      unfolding r
      using quiescent [of "evs @ replicate ?n Resolved" "fs_run (replicate ?n Resolved) ?s"] d
      by simp
  qed
  ultimately show ?thesis
    using inv order by (simp add: queue_inv_def)
qed

theorem operations_applied_in_enqueue_order_example:
  "failed (trace (fs_run
      [ProcessOperation (create_at ''a''), ProcessOperation (move_to ''a'' ''b''), Resolved]
      fs_init)) = [] \<and>
   calm (fs_run
      [ProcessOperation (create_at ''a''), ProcessOperation (move_to ''a'' ''b''), Resolved]
      fs_init) \<and>
   needed (fs_run
      [ProcessOperation (create_at ''a''), ProcessOperation (move_to ''a'' ''b''), Resolved]
      fs_init) = 4 \<and>
   trace (fs_run
      [ProcessOperation (create_at ''a''), ProcessOperation (move_to ''a'' ''b''), Resolved,
       Resolved, Resolved, Resolved, Resolved] fs_init) =
     [Started (create_at ''a''), Finished (create_at ''a''),
      Started (move_to ''a'' ''b''), Finished (move_to ''a'' ''b'')] \<and>
   fileCache (fs_run
      [ProcessOperation (create_at ''a''), ProcessOperation (move_to ''a'' ''b''), Resolved,
       Resolved, Resolved, Resolved, Resolved] fs_init) =
     [''b'' \<mapsto> op_file (move_to ''a'' ''b'')] \<and>
   finished (trace (fs_run
      [ProcessOperation (create_at ''a''), ProcessOperation (move_to ''a'' ''b''), Resolved,
       Resolved, Resolved, Resolved, Resolved] fs_init)) =
     [create_at ''a'', move_to ''a'' ''b''] \<and>
   \<not> isProcessing (fs_run
      [ProcessOperation (create_at ''a''), ProcessOperation (move_to ''a'' ''b''), Resolved,
       Resolved, Resolved, Resolved, Resolved] fs_init) \<and>
   trace (fs_run [ProcessOperation (create_at ''a''), Resolved] fs_init) =
     trace (fs_run [ProcessOperation (create_at ''a'')] fs_init) @ [Finished (create_at ''a'')] \<and>
   fileCache (fs_run [ProcessOperation (create_at ''a''), Resolved] fs_init) ''a'' =
     Some (op_file (create_at ''a''))"
proof -
  let ?evs = "[ProcessOperation (create_at ''a''), ProcessOperation (move_to ''a'' ''b''),
      Resolved]"
  have s: "fs_run ?evs fs_init =
      \<lparr>fileCache = [''a'' \<mapsto> op_file (create_at ''a'')],
       operationQueue = [move_to ''a'' ''b''], isProcessing = True,
       fileWatchers = (\<lambda>p. []), awaiting = Some (create_at ''a'', Return),
       trace = [Started (create_at ''a''), Finished (create_at ''a'')]\<rparr>"
    by (simp add: fs_init_def processOperation_def drain_def applyOperation_def
        resolved_def complete_def notifyWatchers_def create_at_def move_to_def)
  have f: "failed (trace (fs_run ?evs fs_init)) = []"
    and c: "calm (fs_run ?evs fs_init)"
    and n: "needed (fs_run ?evs fs_init) = 4"
    unfolding s
    by (simp_all add: calm_def notifyWatchers_def needed_def awaits_def has_previousPath_def
        move_to_def)
  have r: "?evs @ replicate 4 Resolved =
      [ProcessOperation (create_at ''a''), ProcessOperation (move_to ''a'' ''b''), Resolved,
       Resolved, Resolved, Resolved, Resolved]"
    by (simp add: eval_nat_numeral)
  have t: "trace (fs_run (?evs @ replicate 4 Resolved) fs_init) =
     [Started (create_at ''a''), Finished (create_at ''a''),
      Started (move_to ''a'' ''b''), Finished (move_to ''a'' ''b'')]"
    unfolding fs_run_append s
    by (simp add: eval_nat_numeral drain_def applyOperation_def resolved_def complete_def
        notifyWatchers_def move_to_def has_previousPath_def)
  have c4: "fileCache (fs_run (?evs @ replicate 4 Resolved) fs_init) =
      [''b'' \<mapsto> op_file (move_to ''a'' ''b'')]"
    unfolding fs_run_append s
    by (simp add: eval_nat_numeral drain_def applyOperation_def resolved_def complete_def
        notifyWatchers_def move_to_def create_at_def has_previousPath_def)
  have "finished (trace (fs_run (?evs @ replicate 4 Resolved) fs_init)) =
      [create_at ''a'', move_to ''a'' ''b''] \<and>
    \<not> isProcessing (fs_run (?evs @ replicate 4 Resolved) fs_init)"
    using operations_applied_in_enqueue_order [of ?evs] f c unfolding n by simp
  moreover have fin: "trace (fs_run ([ProcessOperation (create_at ''a'')] @ [Resolved]) fs_init) =
      trace (fs_run [ProcessOperation (create_at ''a'')] fs_init) @ [Finished (create_at ''a'')]"
    by (simp add: fs_init_def processOperation_def drain_def applyOperation_def
        resolved_def complete_def notifyWatchers_def create_at_def)
  moreover have "written (create_at ''a'')
      (fileCache (fs_run ([ProcessOperation (create_at ''a'')] @ [Resolved]) fs_init))"
    using operations_applied_in_enqueue_order [of "[ProcessOperation (create_at ''a'')]",
        THEN conjunct2, THEN conjunct2, THEN conjunct2, THEN conjunct2, THEN conjunct2,
        THEN conjunct1, rule_format, OF fin] .
  then have "fileCache (fs_run ([ProcessOperation (create_at ''a'')] @ [Resolved]) fs_init)
      ''a'' = Some (op_file (create_at ''a''))"
    by (simp add: written_def create_at_def)
  ultimately show ?thesis
    using f c n t c4 unfolding r by simp
qed

text \<open>
  Against C4 as stated: operations on different files do not proceed independently.
  When a create for the file b is enqueued while a create for the file a is being
  applied, it is not started: it waits in the queue, also when the database call of the
  operation on a has resolved, until the loop has come round to it.
\<close>

theorem different_files_share_the_queue:
  "node_path (op_file (create_at ''a'')) \<noteq> node_path (op_file (create_at ''b'')) \<and>
   started (trace (fs_run [ProcessOperation (create_at ''a''), ProcessOperation (create_at ''b'')]
     fs_init)) = [create_at ''a''] \<and>
   awaiting (fs_run [ProcessOperation (create_at ''a''), ProcessOperation (create_at ''b'')]
     fs_init) = Some (create_at ''a'', Upsert) \<and>
   operationQueue (fs_run [ProcessOperation (create_at ''a''), ProcessOperation (create_at ''b'')]
     fs_init) = [create_at ''b''] \<and>
   started (trace (fs_run [ProcessOperation (create_at ''a''), ProcessOperation (create_at ''b''),
     Resolved] fs_init)) = [create_at ''a''] \<and>
   operationQueue (fs_run [ProcessOperation (create_at ''a''), ProcessOperation (create_at ''b''),
     Resolved] fs_init) = [create_at ''b'']"
  by (simp add: fs_init_def processOperation_def drain_def applyOperation_def resolved_def
      complete_def notifyWatchers_def create_at_def)

end
